theory Spec2Isabelle
  imports Complex_Main "HOL-Library.Multiset"
begin

section \<open>Data model\<close>

text \<open>
  A swap record is the JSON object the indexer returns for one swap. The aggregator reads
  \<^verbatim>\<open>id\<close>, \<^verbatim>\<open>amountUSD\<close>, \<^verbatim>\<open>origin\<close>, \<^verbatim>\<open>sender\<close>, \<^verbatim>\<open>recipient\<close> and the two token symbols of the
  pool; \<^verbatim>\<open>timestamp\<close> and \<^verbatim>\<open>feeTier\<close> are fetched but never read. Every field other than
  the identifier may be missing (\<^verbatim>\<open>undefined\<close> or \<^verbatim>\<open>null\<close>), which is \<open>None\<close> here.

  Numbers are JavaScript doubles in the source. They are modelled by exact rationals, so
  sums are exact: rounding, infinities and NaN results of additions are outside the model.
  The value of \<^verbatim>\<open>amountUSD\<close> is kept as what \<^verbatim>\<open>Number(...)\<close> makes of it.

  The address fields of a record are the \<^verbatim>\<open>Bytes\<close> values of the query schema (\<^verbatim>\<open>0x\<close>
  followed by hex digits) and are modelled as byte strings. The requested addresses are
  arbitrary strings: \<^verbatim>\<open>aggregate\<close> does not check them.
\<close>

record token =
  symbol :: "string option"

record pool =
  token0 :: "token option"
  token1 :: "token option"

datatype amount =
    Missing           \<comment> \<open>\<^verbatim>\<open>undefined\<close>, \<^verbatim>\<open>null\<close> or the empty string\<close>
  | Numeric rat       \<comment> \<open>a value that \<^verbatim>\<open>Number\<close> converts to this number\<close>
  | NonNumeric        \<comment> \<open>a value that \<^verbatim>\<open>Number\<close> converts to NaN\<close>

record swap =
  swap_id :: string
  amountUSD :: amount
  origin :: "string option"
  sender :: "string option"
  recipient :: "string option"
  pool :: "pool option"

datatype tag = TagOrigin | TagSender | TagRecipient

type_synonym tagged_swap = "swap \<times> tag set"

text \<open>
  Per-address metrics. The field \<^verbatim>\<open>top_pairs\<close> holds a \<^verbatim>\<open>Map\<close> from pair key to USD while
  records are accumulated and an array of display strings after finalisation, hence the
  type parameter.
\<close>

record 't metrics =
  address :: string
  swaps_execution :: int
  volume_execution_usd :: rat
  swaps_involved :: int
  volume_involved_usd :: rat
  top_pairs :: 't

type_synonym pair_map = "(string \<times> rat) list"

text \<open>
  The object \<^verbatim>\<open>per\<close> is a plain object (\<^verbatim>\<open>const per = {}\<close>) used as a dictionary from
  address to metrics. Such an object has own properties and a prototype. The assignment
  \<^verbatim>\<open>per[k] = v\<close> creates or overwrites the own property \<open>k\<close>, except for the name
  \<^verbatim>\<open>__proto__\<close>: there it installs the object \<open>v\<close> as the prototype of \<^verbatim>\<open>per\<close> and creates
  no own property. The lookup \<^verbatim>\<open>per[k]\<close> yields the own property \<open>k\<close>, and for
  \<^verbatim>\<open>__proto__\<close> the installed prototype. \<^verbatim>\<open>Object.keys\<close> and \<^verbatim>\<open>Object.values\<close> see the
  own properties only.

  A lookup also reaches the names that \<^verbatim>\<open>per\<close> inherits (\<^verbatim>\<open>constructor\<close>, the
  \<^verbatim>\<open>__proto__\<close> of an object whose prototype was never assigned, the field names of an
  installed prototype). Lookups are made with the lowercased address fields of records
  only, and no \<^verbatim>\<open>Bytes\<close> value is such a name, so these are left out: there the lookup
  is \<open>None\<close>.
\<close>

record per_object =
  own :: "string \<rightharpoonup> pair_map metrics"
  proto :: "pair_map metrics option"

text \<open>
  The result \<^verbatim>\<open>{ per, allCount }\<close>. After finalisation the own properties of \<^verbatim>\<open>per\<close>
  hold display strings: they are the field \<open>per\<close>, the mapping from address to metrics.
  The prototype of \<^verbatim>\<open>per\<close> is not reached by the finalisation and stays as accumulated:
  it is the field \<open>per_proto\<close>.
\<close>

record aggregated =
  per :: "string \<rightharpoonup> string list metrics"
  per_proto :: "pair_map metrics option"
  allCount :: nat

section \<open>JavaScript library operations\<close>

text \<open>\<^verbatim>\<open>String.prototype.toLowerCase\<close> on byte strings: the letters A to Z are mapped.\<close>

definition upper_letters :: string where
  "upper_letters = ''ABCDEFGHIJKLMNOPQRSTUVWXYZ''"

definition lower_letters :: string where
  "lower_letters = ''abcdefghijklmnopqrstuvwxyz''"

definition is_upper :: "char \<Rightarrow> bool" where
  "is_upper c = (c \<in> set upper_letters)"

definition lower_char :: "char \<Rightarrow> char" where
  "lower_char c = (case map_of (zip upper_letters lower_letters) c of None \<Rightarrow> c | Some l \<Rightarrow> l)"

definition toLowerCase :: "string \<Rightarrow> string" where
  "toLowerCase x = map lower_char x"

text \<open>
  A \<^verbatim>\<open>Map\<close> is an association list in insertion order with distinct keys:
  \<^verbatim>\<open>set\<close> overwrites the value of a present key in place and appends a new key.
\<close>

fun Map_set :: "('k \<times> 'v) list \<Rightarrow> 'k \<Rightarrow> 'v \<Rightarrow> ('k \<times> 'v) list" where
  "Map_set [] k v = [(k, v)]"
| "Map_set (p # ps) k v = (if fst p = k then (k, v) # ps else p # Map_set ps k v)"

definition Map_has :: "('k \<times> 'v) list \<Rightarrow> 'k \<Rightarrow> bool" where
  "Map_has m k = (map_of m k \<noteq> None)"

definition Map_values :: "('k \<times> 'v) list \<Rightarrow> 'v list" where
  "Map_values m = map snd m"

text \<open>\<^verbatim>\<open>new Set(array)\<close>: the distinct elements in order of first occurrence.\<close>

definition Set_add :: "'a list \<Rightarrow> 'a \<Rightarrow> 'a list" where
  "Set_add xs x = (if x \<in> set xs then xs else xs @ [x])"

definition Set_of :: "'a list \<Rightarrow> 'a list" where
  "Set_of xs = fold (\<lambda>x acc. Set_add acc x) xs []"

text \<open>The lookup \<^verbatim>\<open>per[k]\<close>, and the write to \<^verbatim>\<open>per[k]\<close> or to the object found there.\<close>

definition get_prop :: "per_object \<Rightarrow> string \<Rightarrow> pair_map metrics option" where
  "get_prop p k = (if k = ''__proto__'' then proto p else own p k)"

definition set_prop :: "per_object \<Rightarrow> string \<Rightarrow> pair_map metrics \<Rightarrow> per_object" where
  "set_prop p k v = (if k = ''__proto__'' then p\<lparr>proto := Some v\<rparr> else p\<lparr>own := (own p)(k \<mapsto> v)\<rparr>)"

section \<open>The aggregator\<close>

text \<open>Lines 159 to 170: merging the three raw lists by record identifier.\<close>

fun addSet :: "swap list \<Rightarrow> tag \<Rightarrow> (string \<times> tagged_swap) list \<Rightarrow> (string \<times> tagged_swap) list" where
  "addSet [] tg idxById = idxById"
| "addSet (s # rows) tg idxById =
     addSet rows tg
       (if \<not> Map_has idxById (swap_id s) then Map_set idxById (swap_id s) (s, {tg})
        else (case map_of idxById (swap_id s) of
                Some (s0, tags) \<Rightarrow> Map_set idxById (swap_id s) (s0, insert tg tags)
              | None \<Rightarrow> idxById))"

definition merged :: "swap list \<Rightarrow> swap list \<Rightarrow> swap list \<Rightarrow> tagged_swap list" where
  "merged swapsOrigin swapsSender swapsRecipient =
     Map_values (addSet swapsRecipient TagRecipient
                  (addSet swapsSender TagSender
                    (addSet swapsOrigin TagOrigin [])))"

text \<open>
  Lines 173 to 183: a zero-valued metrics object is assigned to \<^verbatim>\<open>per[a]\<close> for every
  requested address \<open>a\<close>.
\<close>

definition zero_metrics :: "string \<Rightarrow> pair_map metrics" where
  "zero_metrics a =
     \<lparr>address = a, swaps_execution = 0, volume_execution_usd = 0,
      swaps_involved = 0, volume_involved_usd = 0, top_pairs = []\<rparr>"

definition init_per :: "string list \<Rightarrow> per_object" where
  "init_per addresses =
     fold (\<lambda>a p. set_prop p a (zero_metrics a)) addresses \<lparr>own = Map.empty, proto = None\<rparr>"

text \<open>Lines 186 to 190: the coerced amount, the pair key and the lowercased address.\<close>

definition safe_usd :: "swap \<Rightarrow> rat" where
  "safe_usd s = (case amountUSD s of Numeric x \<Rightarrow> x | Missing \<Rightarrow> 0 | NonNumeric \<Rightarrow> 0)"

definition symbol_or :: "token option \<Rightarrow> string \<Rightarrow> string" where
  "symbol_or t d =
     (case t of None \<Rightarrow> d
      | Some tk \<Rightarrow> (case symbol tk of None \<Rightarrow> d | Some y \<Rightarrow> if y = [] then d else y))"

definition pair_key :: "swap \<Rightarrow> string" where
  "pair_key s =
     (case pool s of
        None \<Rightarrow> ''T0'' @ ''/'' @ ''T1''
      | Some p \<Rightarrow> symbol_or (token0 p) ''T0'' @ ''/'' @ symbol_or (token1 p) ''T1'')"

definition lower_addr :: "string option \<Rightarrow> string" where
  "lower_addr x = toLowerCase (case x of None \<Rightarrow> [] | Some y \<Rightarrow> y)"

text \<open>Lines 191 to 195: execution metrics go to the origin only, when it is requested.\<close>

definition add_execution :: "per_object \<Rightarrow> swap \<Rightarrow> per_object" where
  "add_execution p s =
     (let usd = safe_usd s; pair = pair_key s; ori = lower_addr (origin s) in
      case get_prop p ori of
        None \<Rightarrow> p
      | Some m \<Rightarrow>
          set_prop p ori
            (m\<lparr>swaps_execution := swaps_execution m + 1,
               volume_execution_usd := volume_execution_usd m + usd,
               top_pairs := Map_set (top_pairs m) pair
                  ((case map_of (top_pairs m) pair of None \<Rightarrow> 0 | Some v \<Rightarrow> v) + usd)\<rparr>))"

text \<open>Lines 198 to 206: involvement, once per distinct lowercased address of the record.\<close>

definition involved :: "swap \<Rightarrow> string list" where
  "involved s = Set_of (map lower_addr [origin s, sender s, recipient s])"

definition add_involved :: "rat \<Rightarrow> string \<Rightarrow> per_object \<Rightarrow> per_object" where
  "add_involved usd addr p =
     (case get_prop p addr of
        None \<Rightarrow> p
      | Some m \<Rightarrow> set_prop p addr (m\<lparr>swaps_involved := swaps_involved m + 1,
                                     volume_involved_usd := volume_involved_usd m + usd\<rparr>))"

text \<open>Lines 185 to 207: the body of the loop over the distinct records, and the loop.\<close>

definition aggregate_record :: "per_object \<Rightarrow> tagged_swap \<Rightarrow> per_object" where
  "aggregate_record p ts =
     (let s = fst ts in fold (add_involved (safe_usd s)) (involved s) (add_execution p s))"

definition accumulate :: "string list \<Rightarrow> tagged_swap list \<Rightarrow> per_object" where
  "accumulate addresses all_swaps = fold (\<lambda>ts p. aggregate_record p ts) all_swaps (init_per addresses)"

text \<open>
  Lines 209 to 215: the top pairs. \<^verbatim>\<open>Array.prototype.sort\<close> is stable, and so is
  \<^const>\<open>sort_key\<close>; descending by USD is ascending by the negated USD. The currency
  formatter of \<^verbatim>\<open>Intl.NumberFormat\<close> behind \<^verbatim>\<open>humanUSD\<close> is a parameter. The loop runs
  over \<^verbatim>\<open>Object.values(per)\<close>, the own properties.
\<close>

definition top_pairs_of :: "(rat \<Rightarrow> string) \<Rightarrow> pair_map \<Rightarrow> string list" where
  "top_pairs_of humanUSD m =
     map (\<lambda>(pair, usd). pair @ '' ('' @ humanUSD usd @ '')'')
       (take 5 (sort_key (\<lambda>e. - snd e) m))"

definition finalize :: "(rat \<Rightarrow> string) \<Rightarrow> per_object \<Rightarrow> (string \<rightharpoonup> string list metrics)" where
  "finalize humanUSD p =
     (\<lambda>k. case own p k of
        None \<Rightarrow> None
      | Some m \<Rightarrow> Some \<lparr>address = address m, swaps_execution = swaps_execution m,
                        volume_execution_usd = volume_execution_usd m,
                        swaps_involved = swaps_involved m,
                        volume_involved_usd = volume_involved_usd m,
                        top_pairs = top_pairs_of humanUSD (top_pairs m)\<rparr>)"

definition aggregate :: "(rat \<Rightarrow> string) \<Rightarrow> string list \<Rightarrow> swap list \<Rightarrow> swap list \<Rightarrow> swap list \<Rightarrow> aggregated" where
  "aggregate humanUSD addresses swapsOrigin swapsSender swapsRecipient =
     (let all_swaps = merged swapsOrigin swapsSender swapsRecipient;
          p = accumulate addresses all_swaps in
      \<lparr>per = finalize humanUSD p, per_proto = proto p, allCount = length all_swaps\<rparr>)"

section \<open>Fetching\<close>

text \<open>
  A thrown value is an \<^verbatim>\<open>Error\<close> object with a name and a message. The network is a
  parameter: a client answers a request (a query with its variables) with a response or
  an error and moves the outside world, of type \<open>'w\<close>, to its next state. The variables
  of a request are the base variables with \<^verbatim>\<open>first\<close> and \<^verbatim>\<open>skip\<close> added.
\<close>

datatype js_error = JsError (err_name: string) (message: string)

datatype query = SWAPS_QUERY | SWAPS_QUERY_SENDER | SWAPS_QUERY_RECIPIENT

datatype response = Response (swaps: "swap list option")

type_synonym 'b vars = "'b \<times> nat \<times> nat"

type_synonym ('b, 'w) client = "query \<Rightarrow> 'b vars \<Rightarrow> 'w \<Rightarrow> (js_error + response option) \<times> 'w"

text \<open>Line 130: \<^verbatim>\<open>res?.swaps || []\<close>.\<close>

definition rows_of :: "response option \<Rightarrow> swap list" where
  "rows_of res =
     (case res of None \<Rightarrow> []
      | Some r \<Rightarrow> (case swaps r of None \<Rightarrow> [] | Some rows \<Rightarrow> rows))"

definition first :: nat where
  "first = 1000"

text \<open>
  Lines 123 to 136. The loop has no bound of its own, so it is a partial function:
  \<open>None\<close> is the run that never returns. A failed request ends the call with the error.
\<close>

partial_function (option) fetchAll_loop ::
  "('b vars \<Rightarrow> 'w \<Rightarrow> (js_error + response option) \<times> 'w) \<Rightarrow> 'b \<Rightarrow> nat \<Rightarrow> swap list \<Rightarrow> 'w
     \<Rightarrow> ((js_error + swap list) \<times> 'w) option" where
  "fetchAll_loop request varsBase skip out w =
     (case request (varsBase, first, skip) w of
        (Inl e, w') \<Rightarrow> Some (Inl e, w')
      | (Inr res, w') \<Rightarrow>
          (let rows = rows_of res in
           if length rows < first then Some (Inr (out @ rows), w')
           else fetchAll_loop request varsBase (skip + first) (out @ rows) w'))"

definition fetchAll :: "('b, 'w) client \<Rightarrow> query \<Rightarrow> 'b \<Rightarrow> 'w \<Rightarrow> ((js_error + swap list) \<times> 'w) option" where
  "fetchAll client q varsBase w = fetchAll_loop (client q) varsBase 0 [] w"

text \<open>Line 154: the terminal error; \<^verbatim>\<open>lastErr?.message || lastErr\<close> inside a template.\<close>

definition error_toString :: "js_error \<Rightarrow> string" where
  "error_toString e =
     (if err_name e = [] then message e
      else if message e = [] then err_name e
      else err_name e @ '': '' @ message e)"

definition last_error_text :: "js_error option \<Rightarrow> string" where
  "last_error_text lastErr =
     (case lastErr of
        None \<Rightarrow> ''undefined''
      | Some e \<Rightarrow> if message e = [] then error_toString e else message e)"

definition all_failed :: "js_error option \<Rightarrow> js_error" where
  "all_failed lastErr =
     JsError ''Error'' (''All subgraph endpoints failed. Last error: '' @ last_error_text lastErr)"

text \<open>
  Lines 138 to 155: the loop over the candidate URLs, with \<^verbatim>\<open>lastErr\<close> as loop state.
  \<open>net url\<close> is the client made for \<open>url\<close>.
\<close>

type_synonym fetched = "swap list \<times> swap list \<times> swap list \<times> string"

fun fetchWithFallbacks_loop ::
  "(string \<Rightarrow> ('b, 'w) client) \<Rightarrow> string list \<Rightarrow> 'b \<Rightarrow> js_error option \<Rightarrow> 'w
     \<Rightarrow> ((js_error + fetched) \<times> 'w) option" where
  "fetchWithFallbacks_loop net [] varsBase lastErr w = Some (Inl (all_failed lastErr), w)"
| "fetchWithFallbacks_loop net (url # urls) varsBase lastErr w =
     (case fetchAll (net url) SWAPS_QUERY varsBase w of
        None \<Rightarrow> None
      | Some (Inl e, w1) \<Rightarrow> fetchWithFallbacks_loop net urls varsBase (Some e) w1
      | Some (Inr swapsOrigin, w1) \<Rightarrow>
          (case fetchAll (net url) SWAPS_QUERY_SENDER varsBase w1 of
             None \<Rightarrow> None
           | Some (Inl e, w2) \<Rightarrow> fetchWithFallbacks_loop net urls varsBase (Some e) w2
           | Some (Inr swapsSender, w2) \<Rightarrow>
               (case fetchAll (net url) SWAPS_QUERY_RECIPIENT varsBase w2 of
                  None \<Rightarrow> None
                | Some (Inl e, w3) \<Rightarrow> fetchWithFallbacks_loop net urls varsBase (Some e) w3
                | Some (Inr swapsRecipient, w3) \<Rightarrow>
                    Some (Inr (swapsOrigin, swapsSender, swapsRecipient, url), w3))))"

definition fetchWithFallbacks ::
  "(string \<Rightarrow> (string list \<times> int \<times> int, 'w) client) \<Rightarrow> string list \<Rightarrow> string list \<Rightarrow> int \<Rightarrow> int \<Rightarrow> 'w
     \<Rightarrow> ((js_error + fetched) \<times> 'w) option" where
  "fetchWithFallbacks net DEFAULT_URLS addresses start end_ts w =
     fetchWithFallbacks_loop net DEFAULT_URLS (addresses, start, end_ts) None w"

section \<open>Vocabulary of the properties\<close>

text \<open>
  The two attributions of a record to an address \<open>a\<close>: \<open>a\<close> executed the record when it
  is the lowercased origin, and the record involves \<open>a\<close> when \<open>a\<close> is one of its lowercased
  addresses. \<open>role_count\<close> is the number of the three roles that \<open>a\<close> occupies.
\<close>

definition executed_by :: "string \<Rightarrow> swap \<Rightarrow> bool" where
  "executed_by a s = (lower_addr (origin s) = a)"

definition involves :: "string \<Rightarrow> swap \<Rightarrow> bool" where
  "involves a s = (a \<in> set (involved s))"

definition role_count :: "string \<Rightarrow> swap \<Rightarrow> nat" where
  "role_count a s = length (filter (\<lambda>x. lower_addr x = a) [origin s, sender s, recipient s])"

text \<open>
  The metrics of an address written as counts and sums over a list of distinct records,
  with the pair map built by the same \<^verbatim>\<open>Map\<close> updates in the order of the list.
\<close>

definition add_pair :: "swap \<Rightarrow> pair_map \<Rightarrow> pair_map" where
  "add_pair s m =
     Map_set m (pair_key s) ((case map_of m (pair_key s) of None \<Rightarrow> 0 | Some v \<Rightarrow> v) + safe_usd s)"

definition pair_volumes :: "swap list \<Rightarrow> pair_map" where
  "pair_volumes xs = fold add_pair xs []"

definition expected_metrics :: "string \<Rightarrow> swap list \<Rightarrow> pair_map metrics" where
  "expected_metrics a xs =
     \<lparr>address = a,
      swaps_execution = int (length (filter (executed_by a) xs)),
      volume_execution_usd = sum_list (map safe_usd (filter (executed_by a) xs)),
      swaps_involved = int (length (filter (involves a) xs)),
      volume_involved_usd = sum_list (map safe_usd (filter (involves a) xs)),
      top_pairs = pair_volumes (filter (executed_by a) xs)\<rparr>"

text \<open>
  The records of a list that are the first with their identifier, given the identifiers
  already seen.
\<close>

fun first_seen :: "string list \<Rightarrow> swap list \<Rightarrow> swap list" where
  "first_seen seen [] = []"
| "first_seen seen (s # rows) =
     (if swap_id s \<in> set seen then first_seen seen rows
      else s # first_seen (swap_id s # seen) rows)"

text \<open>
  A list without the records of an identifier, and the volume that a pair map holds for a
  pair (0 when the pair is not a key).
\<close>

definition without :: "string \<Rightarrow> swap list \<Rightarrow> swap list" where
  "without X rows = filter (\<lambda>s. swap_id s \<noteq> X) rows"

definition pair_total :: "pair_map \<Rightarrow> string \<Rightarrow> rat" where
  "pair_total m p = (case map_of m p of None \<Rightarrow> 0 | Some v \<Rightarrow> v)"



text \<open>The finalisation of one entry.\<close>

definition final_metrics :: "(rat \<Rightarrow> string) \<Rightarrow> pair_map metrics \<Rightarrow> string list metrics" where
  "final_metrics humanUSD m =
     \<lparr>address = address m, swaps_execution = swaps_execution m,
      volume_execution_usd = volume_execution_usd m,
      swaps_involved = swaps_involved m,
      volume_involved_usd = volume_involved_usd m,
      top_pairs = top_pairs_of humanUSD (top_pairs m)\<rparr>"

text \<open>
  Records for the examples: a record with its three addresses and no pool, a record of
  an origin in a pool whose first token has a symbol, and a record moved to a pool with
  both symbols.
\<close>

definition swap_of :: "string \<Rightarrow> amount \<Rightarrow> string \<Rightarrow> string \<Rightarrow> string \<Rightarrow> swap" where
  "swap_of i usd ori sdr rcp =
     \<lparr>swap_id = i, amountUSD = usd, origin = Some ori, sender = Some sdr,
      recipient = Some rcp, pool = None\<rparr>"


definition in_pool :: "string \<Rightarrow> string \<Rightarrow> swap \<Rightarrow> swap" where
  "in_pool sym0 sym1 s =
     s\<lparr>pool := Some \<lparr>token0 = Some \<lparr>symbol = Some sym0\<rparr>, token1 = Some \<lparr>symbol = Some sym1\<rparr>\<rparr>\<rparr>"

text \<open>
  A source that holds the matching records \<open>recs\<close> of a query: it answers a request
  for \<open>n\<close> records after the first \<open>k\<close> with that slice of \<open>recs\<close>. Its state is the
  list of the requests it has received.
\<close>

definition paged_source :: "swap list \<Rightarrow> ('b, 'b vars list) client" where
  "paged_source recs q v reqs =
     (case v of (varsBase, n, k) \<Rightarrow> (Inr (Some (Response (Some (take n (drop k recs))))), reqs @ [v]))"

text \<open>
  The words of the fallback property. One endpoint is attempted by running the three
  queries in turn; the attempt fails with the error of the first query that fails and
  keeps nothing of the queries before it. A list of endpoints is failing when each
  attempt, made in the order of the list from the state the one before left, fails;
  the error of the last attempt is kept.
\<close>

definition endpoint_attempt ::
  "('b, 'w) client \<Rightarrow> 'b \<Rightarrow> 'w \<Rightarrow> ((js_error + swap list \<times> swap list \<times> swap list) \<times> 'w) option" where
  "endpoint_attempt client varsBase w =
     (case fetchAll client SWAPS_QUERY varsBase w of
        None \<Rightarrow> None
      | Some (Inl e, w1) \<Rightarrow> Some (Inl e, w1)
      | Some (Inr so, w1) \<Rightarrow>
          (case fetchAll client SWAPS_QUERY_SENDER varsBase w1 of
             None \<Rightarrow> None
           | Some (Inl e, w2) \<Rightarrow> Some (Inl e, w2)
           | Some (Inr ss, w2) \<Rightarrow>
               (case fetchAll client SWAPS_QUERY_RECIPIENT varsBase w2 of
                  None \<Rightarrow> None
                | Some (Inl e, w3) \<Rightarrow> Some (Inl e, w3)
                | Some (Inr sr, w3) \<Rightarrow> Some (Inr (so, ss, sr), w3))))"

fun failing_endpoints ::
  "(string \<Rightarrow> ('b, 'w) client) \<Rightarrow> string list \<Rightarrow> 'b \<Rightarrow> js_error option \<Rightarrow> 'w
     \<Rightarrow> (js_error option \<times> 'w) option" where
  "failing_endpoints net [] varsBase lastErr w = Some (lastErr, w)"
| "failing_endpoints net (url # urls) varsBase lastErr w =
     (case endpoint_attempt (net url) varsBase w of
        Some (Inl e, w') \<Rightarrow> failing_endpoints net urls varsBase (Some e) w'
      | _ \<Rightarrow> None)"

text \<open>
  A network for the examples: \<open>E3\<close> answers every query with one record, \<open>E2\<close> answers
  the by-origin query only, every other endpoint is down. The state is the list of
  requests made, as endpoint and query.
\<close>

definition example_net :: "string \<Rightarrow> (string list \<times> int \<times> int, (string \<times> query) list) client" where
  "example_net url q v reqs =
     (if url = ''E3'' \<or> (url = ''E2'' \<and> q = SWAPS_QUERY)
      then Inr (Some (Response (Some [swap_of (url @ ''-id'') (Numeric 1) ''0xabc'' ''0xabc'' ''0xabc''])))
      else Inl (JsError ''Error'' (''down '' @ url)),
      reqs @ [(url, q)])"

section \<open>The aggregator in closed form\<close>

lemma set_Set_of_aux: "set (fold (\<lambda>x acc. Set_add acc x) xs acc) = set acc \<union> set xs"
  by (induction xs arbitrary: acc) (auto simp: Set_add_def)

lemma distinct_Set_of_aux: "distinct acc \<Longrightarrow> distinct (fold (\<lambda>x acc. Set_add acc x) xs acc)"
  by (induction xs arbitrary: acc) (auto simp: Set_add_def)

lemma set_Set_of: "set (Set_of xs) = set xs"
  by (simp add: Set_of_def set_Set_of_aux)

lemma distinct_Set_of: "distinct (Set_of xs)"
  by (simp add: Set_of_def distinct_Set_of_aux)

lemma set_involved:
  "set (involved s) = {lower_addr (origin s), lower_addr (sender s), lower_addr (recipient s)}"
  by (simp add: involved_def set_Set_of)

lemma distinct_involved: "distinct (involved s)"
  by (simp add: involved_def distinct_Set_of)

lemma executed_by_involves: "executed_by a s \<Longrightarrow> involves a s"
  by (auto simp: executed_by_def involves_def set_involved)

lemma get_set_prop: "get_prop (set_prop p k v) k' = (if k' = k then Some v else get_prop p k')"
  by (simp add: get_prop_def set_prop_def)

lemma own_set_prop:
  "own (set_prop p k v) ''__proto__'' = own p ''__proto__''"
  by (simp add: set_prop_def)

lemma add_execution_apply:
  "get_prop (add_execution p s) a =
     (case get_prop p a of None \<Rightarrow> None
      | Some m \<Rightarrow> Some (if executed_by a s
          then m\<lparr>swaps_execution := swaps_execution m + 1,
                 volume_execution_usd := volume_execution_usd m + safe_usd s,
                 top_pairs := add_pair s (top_pairs m)\<rparr>
          else m))"
  by (auto simp: add_execution_def executed_by_def add_pair_def Let_def get_set_prop
      split: option.splits)

lemma add_involved_apply:
  "get_prop (add_involved u x p) a =
     (case get_prop p a of None \<Rightarrow> None
      | Some m \<Rightarrow> Some (if x = a
          then m\<lparr>swaps_involved := swaps_involved m + 1,
                 volume_involved_usd := volume_involved_usd m + u\<rparr>
          else m))"
  by (auto simp: add_involved_def get_set_prop split: option.splits)

lemma fold_add_involved_apply:
  "distinct xs \<Longrightarrow> get_prop (fold (add_involved u) xs p) a =
     (case get_prop p a of None \<Rightarrow> None
      | Some m \<Rightarrow> Some (if a \<in> set xs
          then m\<lparr>swaps_involved := swaps_involved m + 1,
                 volume_involved_usd := volume_involved_usd m + u\<rparr>
          else m))"
proof (induction xs arbitrary: p)
  case Nil
  then show ?case by (simp split: option.splits)
next
  case (Cons x xs)
  then show ?case
    by (auto simp: add_involved_apply split: option.splits)
qed

lemma aggregate_record_apply:
  "get_prop (aggregate_record p ts) a =
     (case get_prop p a of None \<Rightarrow> None
      | Some m \<Rightarrow> Some
         \<lparr>address = address m,
          swaps_execution = swaps_execution m + (if executed_by a (fst ts) then 1 else 0),
          volume_execution_usd =
            volume_execution_usd m + (if executed_by a (fst ts) then safe_usd (fst ts) else 0),
          swaps_involved = swaps_involved m + (if involves a (fst ts) then 1 else 0),
          volume_involved_usd =
            volume_involved_usd m + (if involves a (fst ts) then safe_usd (fst ts) else 0),
          top_pairs = (if executed_by a (fst ts) then add_pair (fst ts) (top_pairs m)
                       else top_pairs m)\<rparr>)"
  by (simp add: aggregate_record_def Let_def fold_add_involved_apply distinct_involved
      add_execution_apply involves_def split: option.splits)

lemma init_per_apply_aux:
  "get_prop (fold (\<lambda>a p. set_prop p a (zero_metrics a)) addrs p0) a =
     (if a \<in> set addrs then Some (zero_metrics a) else get_prop p0 a)"
  by (induction addrs arbitrary: p0) (auto simp: get_set_prop)

lemma init_per_apply:
  "get_prop (init_per addrs) a = (if a \<in> set addrs then Some (zero_metrics a) else None)"
  by (simp add: init_per_def init_per_apply_aux) (simp add: get_prop_def)

lemma pair_volumes_snoc: "pair_volumes (xs @ [s]) = add_pair s (pair_volumes xs)"
  by (simp add: pair_volumes_def)

lemma accumulate_snoc:
  "accumulate addrs (xs @ [ts]) = aggregate_record (accumulate addrs xs) ts"
  by (simp add: accumulate_def)

lemma accumulate_apply:
  "get_prop (accumulate addrs xs) a =
     (if a \<in> set addrs then Some (expected_metrics a (map fst xs)) else None)"
proof (induction xs rule: rev_induct)
  case Nil
  then show ?case
    by (simp add: accumulate_def init_per_apply expected_metrics_def zero_metrics_def pair_volumes_def)
next
  case (snoc ts xs)
  then show ?case
    by (simp add: accumulate_snoc aggregate_record_apply expected_metrics_def pair_volumes_snoc)
qed

text \<open>The name \<^verbatim>\<open>__proto__\<close> never becomes an own property.\<close>

lemma own_add_execution: "own (add_execution p s) ''__proto__'' = own p ''__proto__''"
  by (simp add: add_execution_def Let_def own_set_prop split: option.splits)

lemma own_add_involved: "own (add_involved u x p) ''__proto__'' = own p ''__proto__''"
  by (simp add: add_involved_def own_set_prop split: option.splits)

lemma own_fold_add_involved:
  "own (fold (add_involved u) xs p) ''__proto__'' = own p ''__proto__''"
  by (induction xs arbitrary: p) (simp_all add: own_add_involved)

lemma own_aggregate_record: "own (aggregate_record p ts) ''__proto__'' = own p ''__proto__''"
  by (simp add: aggregate_record_def Let_def own_fold_add_involved own_add_execution)

lemma own_init_per_aux:
  "own (fold (\<lambda>a p. set_prop p a (zero_metrics a)) addrs p0) ''__proto__'' = own p0 ''__proto__''"
  by (induction addrs arbitrary: p0) (simp_all add: own_set_prop)

lemma own_accumulate_proto: "own (accumulate addrs xs) ''__proto__'' = None"
proof (induction xs rule: rev_induct)
  case Nil
  then show ?case by (simp add: accumulate_def init_per_def own_init_per_aux)
next
  case (snoc ts xs)
  then show ?case by (simp add: accumulate_snoc own_aggregate_record)
qed

lemma own_accumulate:
  "own (accumulate addrs xs) a =
     (if a \<in> set addrs \<and> a \<noteq> ''__proto__'' then Some (expected_metrics a (map fst xs)) else None)"
proof (cases "a = ''__proto__''")
  case True
  then show ?thesis by (simp add: own_accumulate_proto)
next
  case False
  then have "own (accumulate addrs xs) a = get_prop (accumulate addrs xs) a"
    by (simp add: get_prop_def)
  with False show ?thesis by (simp add: accumulate_apply)
qed

lemma proto_accumulate:
  "proto (accumulate addrs xs) =
     (if ''__proto__'' \<in> set addrs then Some (expected_metrics ''__proto__'' (map fst xs)) else None)"
  using accumulate_apply [of addrs xs "''__proto__''"] by (simp add: get_prop_def)

subsection \<open>Merging keeps the first record seen for each identifier\<close>

lemma Map_set_keys:
  "map fst (Map_set m k v) = (if k \<in> fst ` set m then map fst m else map fst m @ [k])"
  by (induction m) auto

lemma Map_has_iff: "Map_has m k \<longleftrightarrow> k \<in> fst ` set m"
  by (simp add: Map_has_def map_of_eq_None_iff)

lemma Map_set_new: "k \<notin> fst ` set m \<Longrightarrow> Map_set m k v = m @ [(k, v)]"
  by (induction m) auto

lemma Map_set_retag:
  "map_of m k = Some (s0, tags) \<Longrightarrow>
     map (\<lambda>e. fst (snd e)) (Map_set m k (s0, tags')) = map (\<lambda>e. fst (snd e)) m
     \<and> map fst (Map_set m k (s0, tags')) = map fst m"
  by (induction m) (auto split: if_splits)

lemma first_seen_cong:
  "set seen = set seen' \<Longrightarrow> first_seen seen rows = first_seen seen' rows"
proof (induction rows arbitrary: seen seen')
  case Nil
  then show ?case by simp
next
  case (Cons s rows)
  from Cons.prems have "set (swap_id s # seen) = set (swap_id s # seen')" by simp
  from Cons.IH [OF this] Cons.IH [OF Cons.prems] Cons.prems show ?case by simp
qed

lemma addSet_records:
  "map (\<lambda>e. fst (snd e)) (addSet rows tg idx) = map (\<lambda>e. fst (snd e)) idx @ first_seen (map fst idx) rows
   \<and> map fst (addSet rows tg idx) = map fst idx @ map swap_id (first_seen (map fst idx) rows)"
proof (induction rows arbitrary: idx)
  case Nil
  then show ?case by simp
next
  case (Cons s rows)
  show ?case
  proof (cases "swap_id s \<in> fst ` set idx")
    case True
    then obtain s0 tags where g: "map_of idx (swap_id s) = Some (s0, tags)"
      by (metis Map_has_def Map_has_iff not_None_eq surj_pair)
    from Map_set_retag [OF g] True g Cons [of "Map_set idx (swap_id s) (s0, insert tg tags)"]
    show ?thesis by (simp add: Map_has_iff)
  next
    case False
    then have n: "Map_set idx (swap_id s) (s, {tg}) = idx @ [(swap_id s, (s, {tg}))]"
      by (rule Map_set_new)
    have fs: "first_seen (map fst idx @ [swap_id s]) rows = first_seen (swap_id s # map fst idx) rows" 
      by (rule first_seen_cong) auto
    from False n Cons [of "idx @ [(swap_id s, (s, {tg}))]"] fs
    show ?thesis by (simp add: Map_has_iff)
  qed
qed


lemma ids_first_seen_diff:
  "swap_id ` set (first_seen seen xs) = swap_id ` set xs - set seen"
proof (induction xs arbitrary: seen)
  case Nil
  then show ?case by simp
next
  case (Cons s xs)
  from Cons [of seen] Cons [of "swap_id s # seen"] show ?case by auto
qed

lemma ids_first_seen:
  "swap_id ` set (first_seen seen xs) \<union> set seen = swap_id ` set xs \<union> set seen"
  by (auto simp: ids_first_seen_diff)

lemma first_seen_append:
  "first_seen seen (xs @ ys) = first_seen seen xs @ first_seen (map swap_id xs @ seen) ys"
proof (induction xs arbitrary: seen)
  case Nil
  then show ?case by simp
next
  case (Cons s xs)
  have a: "first_seen (map swap_id xs @ swap_id s # seen) ys = first_seen (swap_id s # map swap_id xs @ seen) ys"
    by (rule first_seen_cong) auto
  have b: "swap_id s \<in> set seen \<Longrightarrow>
      first_seen (swap_id s # map swap_id xs @ seen) ys = first_seen (map swap_id xs @ seen) ys"
    by (rule first_seen_cong) auto
  from Cons [of seen] Cons [of "swap_id s # seen"] a b show ?case by simp
qed

lemma addSet_first_seen:
  assumes "set (map fst idx) = set seen"
  shows "map (\<lambda>e. fst (snd e)) (addSet rows tg idx) = map (\<lambda>e. fst (snd e)) idx @ first_seen seen rows"
    and "set (map fst (addSet rows tg idx)) = set (map swap_id rows @ seen)"
proof -
  have c: "first_seen (map fst idx) rows = first_seen seen rows"
    using assms by (rule first_seen_cong)
  show "map (\<lambda>e. fst (snd e)) (addSet rows tg idx) = map (\<lambda>e. fst (snd e)) idx @ first_seen seen rows"
    using addSet_records [of rows tg idx] c by simp
  have "set (map fst (addSet rows tg idx)) = set (map fst idx) \<union> swap_id ` set (first_seen (map fst idx) rows)"
    using addSet_records [of rows tg idx] by simp
  also have "\<dots> = swap_id ` set rows \<union> set (map fst idx)"
    using ids_first_seen [of "map fst idx" rows] by auto
  finally show "set (map fst (addSet rows tg idx)) = set (map swap_id rows @ seen)"
    using assms by auto
qed

lemma merged_records:
  "map fst (merged so ss sr) = first_seen [] (so @ ss @ sr)"
proof -
  let ?r = "\<lambda>e :: string \<times> tagged_swap. fst (snd e)"
  let ?i1 = "addSet so TagOrigin []"
  let ?i2 = "addSet ss TagSender ?i1"
  let ?i3 = "addSet sr TagRecipient ?i2"
  have e: "set (map fst ([] :: (string \<times> tagged_swap) list)) = set []" by simp
  note 1 = addSet_first_seen [OF e, of so TagOrigin]
  have e1: "set (map fst ?i1) = set (map swap_id so @ [])" using 1(2) .
  note 2 = addSet_first_seen [OF e1, of ss TagSender]
  have e2: "set (map fst ?i2) = set (map swap_id ss @ map swap_id so @ [])" using 2(2) .
  note 3 = addSet_first_seen [OF e2, of sr TagRecipient]
  have "map fst (merged so ss sr) = map ?r ?i3"
    by (simp add: merged_def Map_values_def)
  also have "\<dots> = first_seen [] so @ first_seen (map swap_id so @ []) ss
       @ first_seen (map swap_id ss @ map swap_id so @ []) sr"
    using 1(1) 2(1) 3(1) by simp
  also have "\<dots> = first_seen [] (so @ ss @ sr)"
    by (simp add: first_seen_append)
  finally show ?thesis .
qed

lemma first_seen_subset: "set (first_seen seen xs) \<subseteq> set xs"
  by (induction xs arbitrary: seen) auto

lemma first_seen_fresh: "swap_id ` set (first_seen seen xs) \<inter> set seen = {}"
  by (auto simp: ids_first_seen_diff)

lemma distinct_first_seen: "distinct (map swap_id (first_seen seen xs))"
proof (induction xs arbitrary: seen)
  case Nil
  then show ?case by simp
next
  case (Cons s xs)
  from first_seen_fresh [of "swap_id s # seen" xs] Cons.IH show ?case by auto
qed

lemma ids_first_seen_empty: "swap_id ` set (first_seen [] xs) = swap_id ` set xs"
  using ids_first_seen [of "[]" xs] by simp

lemma set_first_seen_consistent:
  assumes "\<forall>r\<in>set xs. \<forall>r'\<in>set xs. swap_id r = swap_id r' \<longrightarrow> r = r'"
  shows "set (first_seen [] xs) = set xs"
proof
  show "set (first_seen [] xs) \<subseteq> set xs" by (rule first_seen_subset)
  show "set xs \<subseteq> set (first_seen [] xs)"
  proof
    fix r assume r: "r \<in> set xs"
    then have "swap_id r \<in> swap_id ` set (first_seen [] xs)"
      by (simp add: ids_first_seen_empty)
    then obtain r' where r': "r' \<in> set (first_seen [] xs)" "swap_id r = swap_id r'" by auto
    with first_seen_subset [of "[]" xs] have "r' \<in> set xs" by auto
    with assms r r'(2) have "r = r'" by blast
    with r'(1) show "r \<in> set (first_seen [] xs)" by simp
  qed
qed

lemma finalize_apply:
  "finalize h p a = map_option (final_metrics h) (own p a)"
  by (simp add: finalize_def final_metrics_def split: option.splits)

lemma aggregate_apply:
  "per (aggregate h addrs so ss sr) a =
     (if a \<in> set addrs \<and> a \<noteq> ''__proto__''
      then Some (final_metrics h (expected_metrics a (first_seen [] (so @ ss @ sr))))
      else None)"
  by (simp add: aggregate_def Let_def finalize_apply own_accumulate merged_records)

lemma per_proto_aggregate:
  "per_proto (aggregate h addrs so ss sr) =
     (if ''__proto__'' \<in> set addrs
      then Some (expected_metrics ''__proto__'' (first_seen [] (so @ ss @ sr)))
      else None)"
  by (simp add: aggregate_def Let_def proto_accumulate merged_records)

lemma allCount_aggregate:
  "allCount (aggregate h addrs so ss sr) = length (first_seen [] (so @ ss @ sr))"
proof -
  have "length (merged so ss sr) = length (map fst (merged so ss sr))" by simp
  then show ?thesis by (simp add: aggregate_def Let_def merged_records del: length_map)
qed

lemma is_upper_lower_char: "\<not> is_upper (lower_char c)"
  by (auto simp: is_upper_def lower_char_def upper_letters_def lower_letters_def)

lemma toLowerCase_no_upper: "c \<in> set (toLowerCase x) \<Longrightarrow> \<not> is_upper c"
  by (auto simp: toLowerCase_def is_upper_lower_char)

lemma lower_addr_no_upper: "c \<in> set (lower_addr x) \<Longrightarrow> \<not> is_upper c"
  by (simp add: lower_addr_def toLowerCase_no_upper)

lemma upper_not_involved:
  assumes "\<exists>c\<in>set a. is_upper c"
  shows "\<not> involves a s" and "\<not> executed_by a s"
proof -
  from assms have "lower_addr x \<noteq> a" for x
    using lower_addr_no_upper by blast
  then show "\<not> involves a s" by (auto simp: involves_def set_involved)
  then show "\<not> executed_by a s" using executed_by_involves by blast
qed

lemma upper_not_proto: "\<exists>c\<in>set a. is_upper c \<Longrightarrow> a \<noteq> ''__proto__''"
  by (auto simp: is_upper_def upper_letters_def)

lemma expected_metrics_untouched:
  "\<forall>s\<in>set xs. \<not> involves a s \<Longrightarrow> expected_metrics a xs = zero_metrics a"
proof -
  assume h: "\<forall>s\<in>set xs. \<not> involves a s"
  then have 1: "filter (involves a) xs = []" by (simp add: filter_empty_conv)
  from h executed_by_involves have "\<forall>s\<in>set xs. \<not> executed_by a s" by blast
  then have 2: "filter (executed_by a) xs = []" by (simp add: filter_empty_conv)
  show ?thesis by (simp add: expected_metrics_def zero_metrics_def 1 2 pair_volumes_def)
qed

lemma final_zero:
  "final_metrics h (zero_metrics a) =
     \<lparr>address = a, swaps_execution = 0, volume_execution_usd = 0,
      swaps_involved = 0, volume_involved_usd = 0, top_pairs = []\<rparr>"
  by (simp add: final_metrics_def zero_metrics_def top_pairs_of_def)

subsection \<open>Evaluation and auxiliary facts\<close>

lemmas eval_defs = aggregate_apply final_metrics_def expected_metrics_def executed_by_def involves_def
  set_involved swap_of_def lower_addr_def toLowerCase_def lower_char_def upper_letters_def
  lower_letters_def safe_usd_def pair_volumes_def add_pair_def pair_key_def top_pairs_of_def

lemma involves_role_count: "involves a s \<longleftrightarrow> 1 \<le> role_count a s"
  by (auto simp: involves_def set_involved role_count_def)

lemma length_filter_mono:
  "\<forall>x\<in>set xs. P x \<longrightarrow> Q x \<Longrightarrow> length (filter P xs) \<le> length (filter Q xs)"
  by (induction xs) auto

lemma sum_filter_mono:
  fixes f :: "'a \<Rightarrow> rat"
  shows "\<forall>x\<in>set xs. P x \<longrightarrow> Q x \<Longrightarrow> \<forall>x\<in>set xs. 0 \<le> f x \<Longrightarrow>
     sum_list (map f (filter P xs)) \<le> sum_list (map f (filter Q xs))"
  by (induction xs) (auto intro: add_increasing)

lemma sum_filter_nonneg:
  fixes f :: "'a \<Rightarrow> rat"
  shows "\<forall>x\<in>set xs. 0 \<le> f x \<Longrightarrow> 0 \<le> sum_list (map f (filter P xs))"
  by (induction xs) auto

section \<open>Claims about the aggregator\<close>




text \<open>
  C10. Matching lowercases the address fields of a record and never the requested
  addresses: a requested address that contains an uppercase letter is matched by no
  record, so its entry is all zero with no top pairs, even when records name the same
  address in another case.
\<close>

theorem uppercase_request_unmatched:
  assumes "a \<in> set addrs" and "\<exists>c\<in>set a. is_upper c"
  shows "per (aggregate h addrs so ss sr) a =
        Some \<lparr>address = a, swaps_execution = 0, volume_execution_usd = 0,
              swaps_involved = 0, volume_involved_usd = 0, top_pairs = []\<rparr>"
proof -
  from upper_not_involved(1) [OF assms(2)]
  have "expected_metrics a (first_seen [] (so @ ss @ sr)) = zero_metrics a"
    by (intro expected_metrics_untouched) simp
  with assms(1) upper_not_proto [OF assms(2)] show ?thesis
    by (simp add: aggregate_apply final_zero)
qed

theorem uppercase_request_unmatched_witness:
  "per (aggregate (\<lambda>x. ''$'') [''0xABC'']
          [swap_of ''id1'' (Numeric 6000) ''0xABC'' ''0xabc'' ''0xAbC''] [] []) ''0xABC'' =
        Some \<lparr>address = ''0xABC'', swaps_execution = 0, volume_execution_usd = 0,
              swaps_involved = 0, volume_involved_usd = 0, top_pairs = []\<rparr>"
  using uppercase_request_unmatched [of "''0xABC''" "[''0xABC'']" "\<lambda>x. ''$''"
      "[swap_of ''id1'' (Numeric 6000) ''0xABC'' ''0xabc'' ''0xAbC'']" "[]" "[]"]
  by (simp add: is_upper_def upper_letters_def)

text \<open>
  C4. A distinct merged record in which a requested address occupies two or three of the
  roles origin, sender and recipient (compared after lowercasing) raises that address's
  involved swap count by exactly one and its involved volume by the record's USD amount,
  once. The metrics that \<^verbatim>\<open>per[a]\<close> yields with the record in the merged list are compared
  with those without it.
\<close>

theorem involvement_non_duplication:
  assumes "a \<in> set addrs" and "2 \<le> role_count a (fst ts)"
  shows "\<exists>m m'. get_prop (accumulate addrs (xs @ ys)) a = Some m
           \<and> get_prop (accumulate addrs (xs @ ts # ys)) a = Some m'
           \<and> swaps_involved m' = swaps_involved m + 1
           \<and> volume_involved_usd m' = volume_involved_usd m + safe_usd (fst ts)"
proof -
  from assms(2) have "involves a (fst ts)" by (simp add: involves_role_count)
  with assms(1) show ?thesis
    by (simp add: accumulate_apply expected_metrics_def)
qed

theorem involvement_non_duplication_witness:
  "2 \<le> role_count ''0xabc'' (swap_of ''id2'' (Numeric 4000) ''0xother'' ''0xABC'' ''0xabc'')
   \<and> (\<exists>m m'. get_prop (accumulate [''0xabc''] []) ''0xabc'' = Some m
         \<and> get_prop (accumulate [''0xabc'']
              [(swap_of ''id2'' (Numeric 4000) ''0xother'' ''0xABC'' ''0xabc'', {TagSender})]) ''0xabc'' = Some m'
         \<and> swaps_involved m' = swaps_involved m + 1
         \<and> volume_involved_usd m' = volume_involved_usd m + 4000)"
  using involvement_non_duplication [of "''0xabc''" "[''0xabc'']"
      "(swap_of ''id2'' (Numeric 4000) ''0xother'' ''0xABC'' ''0xabc'', {TagSender})" "[]" "[]"]
  by (simp add: role_count_def swap_of_def lower_addr_def toLowerCase_def lower_char_def
      upper_letters_def lower_letters_def safe_usd_def)

text \<open>
  C5. A distinct merged record whose lowercased origin is not a requested address leaves
  the execution swap count, the execution volume and the pair-volume accumulation of
  every requested address as they are without the record, also when a requested address
  is the sender or the recipient of the record.
\<close>

theorem execution_exclusivity:
  assumes "lower_addr (origin (fst ts)) \<notin> set addrs" and "a \<in> set addrs"
  shows "\<exists>m m'. get_prop (accumulate addrs (xs @ ys)) a = Some m
           \<and> get_prop (accumulate addrs (xs @ ts # ys)) a = Some m'
           \<and> swaps_execution m' = swaps_execution m
           \<and> volume_execution_usd m' = volume_execution_usd m
           \<and> top_pairs m' = top_pairs m"
proof -
  from assms have "\<not> executed_by a (fst ts)" by (auto simp: executed_by_def)
  with assms(2) show ?thesis
    by (simp add: accumulate_apply expected_metrics_def)
qed

theorem execution_exclusivity_witness:
  "lower_addr (origin (swap_of ''id2'' (Numeric 4000) ''0xother'' ''0xabc'' ''0xdef'')) \<notin> set [''0xabc'']
   \<and> (\<exists>m m'. get_prop (accumulate [''0xabc''] []) ''0xabc'' = Some m
         \<and> get_prop (accumulate [''0xabc'']
              [(swap_of ''id2'' (Numeric 4000) ''0xother'' ''0xabc'' ''0xdef'', {TagSender})]) ''0xabc'' = Some m'
         \<and> swaps_execution m' = swaps_execution m
         \<and> volume_execution_usd m' = volume_execution_usd m
         \<and> top_pairs m' = top_pairs m)"
  using execution_exclusivity [of 
      "(swap_of ''id2'' (Numeric 4000) ''0xother'' ''0xabc'' ''0xdef'', {TagSender})"
      "[''0xabc'']" "''0xabc''" "[]" "[]"]
  by (simp add: swap_of_def lower_addr_def toLowerCase_def lower_char_def
      upper_letters_def lower_letters_def)

text \<open>
  C7, as amended. For every requested address and all input lists the metrics that the
  returned \<^verbatim>\<open>per[a]\<close> yields (the entry of the mapping, and for the name \<^verbatim>\<open>__proto__\<close> the
  prototype) have an execution swap count that is at least 0 and an involved swap count
  that is at least the execution swap count. When no record has a negative USD amount,
  the execution volume is at least 0 and the involved volume is at least the execution
  volume. The amount of a record is not checked for its sign, and a negative amount
  breaks both volume bounds.
\<close>

theorem metrics_invariant:
  assumes "a \<in> set addrs"
  shows "(a \<noteq> ''__proto__'' \<longrightarrow>
          (\<exists>m. per (aggregate h addrs so ss sr) a = Some m
             \<and> 0 \<le> swaps_execution m \<and> swaps_execution m \<le> swaps_involved m
             \<and> ((\<forall>s\<in>set (so @ ss @ sr). 0 \<le> safe_usd s) \<longrightarrow>
                   0 \<le> volume_execution_usd m \<and> volume_execution_usd m \<le> volume_involved_usd m)))
       \<and> (a = ''__proto__'' \<longrightarrow>
          (\<exists>m. per_proto (aggregate h addrs so ss sr) = Some m
             \<and> 0 \<le> swaps_execution m \<and> swaps_execution m \<le> swaps_involved m
             \<and> ((\<forall>s\<in>set (so @ ss @ sr). 0 \<le> safe_usd s) \<longrightarrow>
                   0 \<le> volume_execution_usd m \<and> volume_execution_usd m \<le> volume_involved_usd m)))"
proof -
  let ?all = "first_seen [] (so @ ss @ sr)"
  let ?e = "expected_metrics a ?all"
  let ?m = "final_metrics h ?e"
  have imp: "\<forall>x\<in>set ?all. executed_by a x \<longrightarrow> involves a x"
    using executed_by_involves by blast
  have 2: "0 \<le> swaps_execution ?e"
    by (simp add: expected_metrics_def)
  have 3: "swaps_execution ?e \<le> swaps_involved ?e"
    using length_filter_mono [OF imp] by (simp add: expected_metrics_def)
  have 4: "0 \<le> volume_execution_usd ?e \<and> volume_execution_usd ?e \<le> volume_involved_usd ?e"
    if nn: "\<forall>s\<in>set (so @ ss @ sr). 0 \<le> safe_usd s"
  proof -
    from nn first_seen_subset [of "[]" "so @ ss @ sr"]
    have nn': "\<forall>s\<in>set ?all. 0 \<le> safe_usd s" by blast
    from sum_filter_nonneg [OF nn'] sum_filter_mono [OF imp nn']
    show ?thesis by (simp add: expected_metrics_def)
  qed
  have f: "swaps_execution ?m = swaps_execution ?e" "swaps_involved ?m = swaps_involved ?e"
    "volume_execution_usd ?m = volume_execution_usd ?e"
    "volume_involved_usd ?m = volume_involved_usd ?e"
    by (simp_all add: final_metrics_def)
  have own: "per (aggregate h addrs so ss sr) a = Some ?m" if "a \<noteq> ''__proto__''"
    using assms that by (simp add: aggregate_apply)
  have pro: "per_proto (aggregate h addrs so ss sr) = Some ?e" if "a = ''__proto__''"
    using assms that by (simp add: per_proto_aggregate)
  show ?thesis
  proof (intro conjI impI)
    assume "a \<noteq> ''__proto__''"
    from own [OF this] 2 3 4 f
    show "\<exists>m. per (aggregate h addrs so ss sr) a = Some m
             \<and> 0 \<le> swaps_execution m \<and> swaps_execution m \<le> swaps_involved m
             \<and> ((\<forall>s\<in>set (so @ ss @ sr). 0 \<le> safe_usd s) \<longrightarrow>
                   0 \<le> volume_execution_usd m \<and> volume_execution_usd m \<le> volume_involved_usd m)"
      by simp
  next
    assume "a = ''__proto__''"
    from pro [OF this] 2 3 4
    show "\<exists>m. per_proto (aggregate h addrs so ss sr) = Some m
             \<and> 0 \<le> swaps_execution m \<and> swaps_execution m \<le> swaps_involved m
             \<and> ((\<forall>s\<in>set (so @ ss @ sr). 0 \<le> safe_usd s) \<longrightarrow>
                   0 \<le> volume_execution_usd m \<and> volume_execution_usd m \<le> volume_involved_usd m)"
      by simp
  qed
qed

theorem metrics_invariant_witness:
  "\<exists>m. per (aggregate (\<lambda>x. ''$'') [''0xabc'']
          [swap_of ''id1'' (Numeric 6000) ''0xabc'' ''0xs'' ''0xr'']
          [swap_of ''id2'' (Numeric 4000) ''0xother'' ''0xabc'' ''0xdef''] []) ''0xabc'' = Some m
     \<and> 0 \<le> swaps_execution m \<and> swaps_execution m \<le> swaps_involved m
     \<and> 0 \<le> volume_execution_usd m \<and> volume_execution_usd m \<le> volume_involved_usd m"
  using metrics_invariant [of "''0xabc''" "[''0xabc'']" "\<lambda>x. ''$''"
          "[swap_of ''id1'' (Numeric 6000) ''0xabc'' ''0xs'' ''0xr'']"
          "[swap_of ''id2'' (Numeric 4000) ''0xother'' ''0xabc'' ''0xdef'']" "[]"]
  by (simp add: swap_of_def safe_usd_def)

theorem metrics_invariant_counterexample:
  "\<not> 0 \<le> volume_execution_usd (the (per (aggregate (\<lambda>x. ''$'') [''0xabc'']
        [swap_of ''id1'' (Numeric (- 5)) ''0xabc'' ''0xabc'' ''0xabc''] [] []) ''0xabc''))
   \<and> \<not> volume_execution_usd (the (per (aggregate (\<lambda>x. ''$'') [''0xabc'']
        [swap_of ''id1'' (Numeric 10) ''0xabc'' ''0xabc'' ''0xabc''] 
        [swap_of ''id2'' (Numeric (- 5)) ''0xother'' ''0xabc'' ''0xdef''] []) ''0xabc''))
      \<le> volume_involved_usd (the (per (aggregate (\<lambda>x. ''$'') [''0xabc'']
        [swap_of ''id1'' (Numeric 10) ''0xabc'' ''0xabc'' ''0xabc''] 
        [swap_of ''id2'' (Numeric (- 5)) ''0xother'' ''0xabc'' ''0xdef''] []) ''0xabc''))"
  by (simp add: eval_defs)

section \<open>Top pairs\<close>

lemma filter_eq_single:
  "distinct xs \<Longrightarrow> k \<in> set xs \<Longrightarrow> filter (\<lambda>x. k = x) xs = [k]"
  by (induction xs) (auto simp: filter_empty_conv)

lemma sort_key_unique:
  assumes m: "mset xs = mset ys" and s: "sorted (map f ys)"
    and i: "inj_on f (set ys)" and d: "distinct ys"
  shows "sort_key f xs = ys"
proof (rule properties_for_sort_key)
  show "mset ys = mset xs" using m by simp
  show "sorted (map f ys)" by (rule s)
  fix k assume k: "k \<in> set ys"
  from m have sx: "set xs = set ys" by (rule mset_eq_setD)
  from m d have dx: "distinct xs" by (metis mset_eq_imp_distinct_iff)
  have "filter (\<lambda>x. f k = f x) ys = filter (\<lambda>x. k = x) ys"
    using i k by (intro filter_cong) (auto dest: inj_onD)
  moreover have "filter (\<lambda>x. f k = f x) xs = filter (\<lambda>x. k = x) xs"
    using i k sx by (intro filter_cong) (auto dest: inj_onD)
  ultimately show "filter (\<lambda>x. f k = f x) ys = filter (\<lambda>x. f k = f x) xs"
    using filter_eq_single [OF d k] filter_eq_single [OF dx] k sx by simp
qed








section \<open>Independence of the order of the input\<close>

lemma map_of_Map_set: "map_of (Map_set m k v) = (map_of m)(k \<mapsto> v)"
  by (induction m) auto

lemma distinct_Map_set: "distinct (map fst m) \<Longrightarrow> distinct (map fst (Map_set m k v))"
  by (simp add: Map_set_keys)

lemma distinct_pair_volumes: "distinct (map fst (pair_volumes xs))"
  by (induction xs rule: rev_induct)
    (simp_all add: pair_volumes_snoc add_pair_def distinct_Map_set, simp add: pair_volumes_def)

lemma filter_key_empty: "k \<notin> f ` set xs \<Longrightarrow> filter (\<lambda>s. f s = k) xs = []"
  by (auto simp: filter_empty_conv)

lemma map_of_pair_volumes:
  "map_of (pair_volumes xs) k =
     (if k \<in> pair_key ` set xs
      then Some (sum_list (map safe_usd (filter (\<lambda>s. pair_key s = k) xs))) else None)"
proof (induction xs rule: rev_induct)
  case Nil
  then show ?case by (simp add: pair_volumes_def)
next
  case (snoc s xs)
  then show ?case
    by (auto simp: pair_volumes_snoc add_pair_def map_of_Map_set filter_key_empty)
qed

lemma length_filter_mset:
  "mset xs = mset ys \<Longrightarrow> length (filter P xs) = length (filter P ys)"
  by (metis mset_filter size_mset)

lemma sum_filter_mset:
  fixes f :: "'a \<Rightarrow> rat"
  shows "mset xs = mset ys \<Longrightarrow> sum_list (map f (filter P xs)) = sum_list (map f (filter P ys))"
  by (metis mset_filter mset_map sum_mset_sum_list)

lemma pair_volumes_mset:
  assumes "mset xs = mset ys"
  shows "mset (pair_volumes xs) = mset (pair_volumes ys)"
proof -
  from assms have s: "set xs = set ys" by (rule mset_eq_setD)
  have "map_of (pair_volumes xs) = map_of (pair_volumes ys)"
    by (rule ext) (simp add: map_of_pair_volumes s sum_filter_mset [OF assms])
  then have "set (pair_volumes xs) = set (pair_volumes ys)"
    by (simp add: map_of_inject_set distinct_pair_volumes)
  moreover have "distinct (pair_volumes xs)" "distinct (pair_volumes ys)"
    using distinct_pair_volumes distinct_map by blast+
  ultimately show ?thesis by (simp add: set_eq_iff_mset_eq_distinct)
qed

lemma top_pairs_of_mset:
  assumes m: "mset xs = mset ys" and d: "distinct (map snd xs)"
  shows "top_pairs_of h xs = top_pairs_of h ys"
proof -
  let ?f = "\<lambda>e :: string \<times> rat. - snd e"
  from d have dx: "distinct xs" and ix: "inj_on snd (set xs)"
    by (simp_all add: distinct_map)
  from ix have i: "inj_on ?f (set (sort_key ?f xs))"
    by (auto simp: inj_on_def)
  have "sort_key ?f ys = sort_key ?f xs"
    using m dx i by (intro sort_key_unique) simp_all
  then show ?thesis by (simp add: top_pairs_of_def)
qed

lemma expected_metrics_mset:
  assumes "mset xs = mset ys"
  shows "swaps_execution (expected_metrics a xs) = swaps_execution (expected_metrics a ys)"
    and "volume_execution_usd (expected_metrics a xs) = volume_execution_usd (expected_metrics a ys)"
    and "swaps_involved (expected_metrics a xs) = swaps_involved (expected_metrics a ys)"
    and "volume_involved_usd (expected_metrics a xs) = volume_involved_usd (expected_metrics a ys)"
    and "mset (top_pairs (expected_metrics a xs)) = mset (top_pairs (expected_metrics a ys))"
proof -
  from assms have f: "mset (filter (executed_by a) xs) = mset (filter (executed_by a) ys)"
    by simp
  show "swaps_execution (expected_metrics a xs) = swaps_execution (expected_metrics a ys)"
    by (simp add: expected_metrics_def length_filter_mset [OF assms])
  show "volume_execution_usd (expected_metrics a xs) = volume_execution_usd (expected_metrics a ys)"
    by (simp add: expected_metrics_def sum_filter_mset [OF assms])
  show "swaps_involved (expected_metrics a xs) = swaps_involved (expected_metrics a ys)"
    by (simp add: expected_metrics_def length_filter_mset [OF assms])
  show "volume_involved_usd (expected_metrics a xs) = volume_involved_usd (expected_metrics a ys)"
    by (simp add: expected_metrics_def sum_filter_mset [OF assms])
  show "mset (top_pairs (expected_metrics a xs)) = mset (top_pairs (expected_metrics a ys))"
    using pair_volumes_mset [OF f] by (simp add: expected_metrics_def)
qed

lemma distinct_of_ids: "distinct (map swap_id xs) \<Longrightarrow> distinct xs"
  by (simp add: distinct_map)

lemma first_seen_mset:
  assumes s: "set xs = set ys"
    and c: "\<forall>r\<in>set xs. \<forall>r'\<in>set xs. swap_id r = swap_id r' \<longrightarrow> r = r'"
  shows "mset (first_seen [] xs) = mset (first_seen [] ys)"
proof -
  from c s have c': "\<forall>r\<in>set ys. \<forall>r'\<in>set ys. swap_id r = swap_id r' \<longrightarrow> r = r'" by simp
  have "set (first_seen [] xs) = set (first_seen [] ys)"
    using set_first_seen_consistent [OF c] set_first_seen_consistent [OF c'] s by simp
  moreover have "distinct (first_seen [] xs)" "distinct (first_seen [] ys)"
    by (rule distinct_of_ids, rule distinct_first_seen)+
  ultimately show ?thesis by (simp add: set_eq_iff_mset_eq_distinct)
qed


lemma per_aggregate_eqI:
  assumes "mset (first_seen [] (so @ ss @ sr)) = mset (first_seen [] (so' @ ss' @ sr'))"
    and "a \<in> set addrs \<Longrightarrow>
      distinct (map snd (top_pairs (expected_metrics a (first_seen [] (so @ ss @ sr)))))"
  shows "per (aggregate h addrs so ss sr) a = per (aggregate h addrs so' ss' sr') a"
proof (cases "a \<in> set addrs")
  case False
  then show ?thesis by (simp add: aggregate_apply)
next
  case True
  note e = expected_metrics_mset [OF assms(1), of a]
  have "top_pairs_of h (top_pairs (expected_metrics a (first_seen [] (so @ ss @ sr)))) =
        top_pairs_of h (top_pairs (expected_metrics a (first_seen [] (so' @ ss' @ sr'))))"
    using e(5) assms(2) [OF True] by (rule top_pairs_of_mset)
  with e(1-4) True show ?thesis
    by (simp add: aggregate_apply final_metrics_def expected_metrics_def)
qed

text \<open>
  C8, as amended. Take two arrangements of the same records over the three input lists,
  the field values being the same for equal identifiers. Then \<^verbatim>\<open>allCount\<close> and, for every
  address, the swap counts and the volumes of the two results are equal, and the whole
  entry of an address, its top pairs included, is equal whenever no two pairs of that
  address have the same accumulated volume. Pairs of equal volume keep the order in which
  they were first accumulated, which follows the order of the lists.
\<close>

theorem order_independence:
  assumes "set (so @ ss @ sr) = set (so' @ ss' @ sr')"
    and "\<forall>r\<in>set (so @ ss @ sr). \<forall>r'\<in>set (so @ ss @ sr). swap_id r = swap_id r' \<longrightarrow> r = r'"
  shows "allCount (aggregate h addrs so ss sr) = allCount (aggregate h addrs so' ss' sr')
     \<and> map_option swaps_execution (per (aggregate h addrs so ss sr) a) =
         map_option swaps_execution (per (aggregate h addrs so' ss' sr') a)
     \<and> map_option volume_execution_usd (per (aggregate h addrs so ss sr) a) =
         map_option volume_execution_usd (per (aggregate h addrs so' ss' sr') a)
     \<and> map_option swaps_involved (per (aggregate h addrs so ss sr) a) =
         map_option swaps_involved (per (aggregate h addrs so' ss' sr') a)
     \<and> map_option volume_involved_usd (per (aggregate h addrs so ss sr) a) =
         map_option volume_involved_usd (per (aggregate h addrs so' ss' sr') a)
     \<and> ((\<forall>m. get_prop (accumulate addrs (merged so ss sr)) a = Some m
             \<longrightarrow> distinct (map snd (top_pairs m)))
          \<longrightarrow> per (aggregate h addrs so ss sr) a = per (aggregate h addrs so' ss' sr') a)"
proof -
  let ?D = "first_seen [] (so @ ss @ sr)" and ?D' = "first_seen [] (so' @ ss' @ sr')"
  have m: "mset ?D = mset ?D'" using assms by (rule first_seen_mset)
  note e = expected_metrics_mset [OF m, of a]
  have 1: "allCount (aggregate h addrs so ss sr) = allCount (aggregate h addrs so' ss' sr')"
    using arg_cong [OF m, of size] by (simp add: allCount_aggregate)
  have 2: "map_option swaps_execution (per (aggregate h addrs so ss sr) a) =
         map_option swaps_execution (per (aggregate h addrs so' ss' sr') a)"
    using e(1) by (simp add: aggregate_apply final_metrics_def)
  have 3: "map_option volume_execution_usd (per (aggregate h addrs so ss sr) a) =
         map_option volume_execution_usd (per (aggregate h addrs so' ss' sr') a)"
    using e(2) by (simp add: aggregate_apply final_metrics_def)
  have 4: "map_option swaps_involved (per (aggregate h addrs so ss sr) a) =
         map_option swaps_involved (per (aggregate h addrs so' ss' sr') a)"
    using e(3) by (simp add: aggregate_apply final_metrics_def)
  have 5: "map_option volume_involved_usd (per (aggregate h addrs so ss sr) a) =
         map_option volume_involved_usd (per (aggregate h addrs so' ss' sr') a)"
    using e(4) by (simp add: aggregate_apply final_metrics_def)
  have 6: "per (aggregate h addrs so ss sr) a = per (aggregate h addrs so' ss' sr') a"
    if "\<forall>m. get_prop (accumulate addrs (merged so ss sr)) a = Some m
          \<longrightarrow> distinct (map snd (top_pairs m))"
    using m
  proof (rule per_aggregate_eqI)
    assume "a \<in> set addrs"
    with that show "distinct (map snd (top_pairs (expected_metrics a ?D)))"
      by (simp add: accumulate_apply merged_records)
  qed
  from 1 2 3 4 5 6 show ?thesis by blast
qed

theorem order_independence_counterexample:
  "map_option top_pairs (per (aggregate (\<lambda>x. ''$'') [''0xabc'']
       [in_pool ''A'' ''B'' (swap_of ''id1'' (Numeric 10) ''0xabc'' ''0xs'' ''0xr''),
        in_pool ''C'' ''D'' (swap_of ''id2'' (Numeric 10) ''0xabc'' ''0xabc'' ''0xr'')]
       [in_pool ''C'' ''D'' (swap_of ''id2'' (Numeric 10) ''0xabc'' ''0xabc'' ''0xr'')]
       []) ''0xabc'') = Some [''A/B ($)'', ''C/D ($)'']
   \<and> map_option top_pairs (per (aggregate (\<lambda>x. ''$'') [''0xabc'']
       [in_pool ''C'' ''D'' (swap_of ''id2'' (Numeric 10) ''0xabc'' ''0xabc'' ''0xr'')]
       [in_pool ''A'' ''B'' (swap_of ''id1'' (Numeric 10) ''0xabc'' ''0xs'' ''0xr''),
        in_pool ''C'' ''D'' (swap_of ''id2'' (Numeric 10) ''0xabc'' ''0xabc'' ''0xr'')]
       []) ''0xabc'') = Some [''C/D ($)'', ''A/B ($)'']
   \<and> per (aggregate (\<lambda>x. ''$'') [''0xabc'']
       [in_pool ''A'' ''B'' (swap_of ''id1'' (Numeric 10) ''0xabc'' ''0xs'' ''0xr''),
        in_pool ''C'' ''D'' (swap_of ''id2'' (Numeric 10) ''0xabc'' ''0xabc'' ''0xr'')]
       [in_pool ''C'' ''D'' (swap_of ''id2'' (Numeric 10) ''0xabc'' ''0xabc'' ''0xr'')]
       []) ''0xabc''
     \<noteq> per (aggregate (\<lambda>x. ''$'') [''0xabc'']
       [in_pool ''C'' ''D'' (swap_of ''id2'' (Numeric 10) ''0xabc'' ''0xabc'' ''0xr'')]
       [in_pool ''A'' ''B'' (swap_of ''id1'' (Numeric 10) ''0xabc'' ''0xs'' ''0xr''),
        in_pool ''C'' ''D'' (swap_of ''id2'' (Numeric 10) ''0xabc'' ''0xabc'' ''0xr'')]
       []) ''0xabc''"
proof -
  let ?r1 = "in_pool ''A'' ''B'' (swap_of ''id1'' (Numeric 10) ''0xabc'' ''0xs'' ''0xr'')"
  let ?r2 = "in_pool ''C'' ''D'' (swap_of ''id2'' (Numeric 10) ''0xabc'' ''0xabc'' ''0xr'')"
  let ?p = "per (aggregate (\<lambda>x. ''$'') [''0xabc''] [?r1, ?r2] [?r2] []) ''0xabc''"
  let ?q = "per (aggregate (\<lambda>x. ''$'') [''0xabc''] [?r2] [?r1, ?r2] []) ''0xabc''"
  have 1: "map_option top_pairs ?p = Some [''A/B ($)'', ''C/D ($)'']"
    by (simp add: eval_defs in_pool_def symbol_or_def)
  have 2: "map_option top_pairs ?q = Some [''C/D ($)'', ''A/B ($)'']"
    by (simp add: eval_defs in_pool_def symbol_or_def)
  have "?p \<noteq> ?q"
  proof
    assume "?p = ?q"
    then have "map_option top_pairs ?p = map_option top_pairs ?q" by (rule arg_cong)
    then show False unfolding 1 2 by simp
  qed
  with 1 2 show ?thesis by blast
qed

theorem order_independence_witness:
  "allCount (aggregate (\<lambda>x. ''$'') [''0xabc'']
       [in_pool ''A'' ''B'' (swap_of ''id1'' (Numeric 10) ''0xabc'' ''0xs'' ''0xr''),
        in_pool ''C'' ''D'' (swap_of ''id2'' (Numeric 20) ''0xabc'' ''0xabc'' ''0xr'')]
       [in_pool ''C'' ''D'' (swap_of ''id2'' (Numeric 20) ''0xabc'' ''0xabc'' ''0xr'')]
       [])
   = allCount (aggregate (\<lambda>x. ''$'') [''0xabc'']
       [in_pool ''C'' ''D'' (swap_of ''id2'' (Numeric 20) ''0xabc'' ''0xabc'' ''0xr'')]
       [in_pool ''A'' ''B'' (swap_of ''id1'' (Numeric 10) ''0xabc'' ''0xs'' ''0xr''),
        in_pool ''C'' ''D'' (swap_of ''id2'' (Numeric 20) ''0xabc'' ''0xabc'' ''0xr'')]
       [])
   \<and> per (aggregate (\<lambda>x. ''$'') [''0xabc'']
       [in_pool ''A'' ''B'' (swap_of ''id1'' (Numeric 10) ''0xabc'' ''0xs'' ''0xr''),
        in_pool ''C'' ''D'' (swap_of ''id2'' (Numeric 20) ''0xabc'' ''0xabc'' ''0xr'')]
       [in_pool ''C'' ''D'' (swap_of ''id2'' (Numeric 20) ''0xabc'' ''0xabc'' ''0xr'')]
       []) ''0xabc''
     = per (aggregate (\<lambda>x. ''$'') [''0xabc'']
       [in_pool ''C'' ''D'' (swap_of ''id2'' (Numeric 20) ''0xabc'' ''0xabc'' ''0xr'')]
       [in_pool ''A'' ''B'' (swap_of ''id1'' (Numeric 10) ''0xabc'' ''0xs'' ''0xr''),
        in_pool ''C'' ''D'' (swap_of ''id2'' (Numeric 20) ''0xabc'' ''0xabc'' ''0xr'')]
       []) ''0xabc''"
proof -
  let ?r1 = "in_pool ''A'' ''B'' (swap_of ''id1'' (Numeric 10) ''0xabc'' ''0xs'' ''0xr'')"
  let ?r2 = "in_pool ''C'' ''D'' (swap_of ''id2'' (Numeric 20) ''0xabc'' ''0xabc'' ''0xr'')"
  have s: "set ([?r1, ?r2] @ [?r2] @ []) = set ([?r2] @ [?r1, ?r2] @ [])" by auto
  have c: "\<forall>r\<in>set ([?r1, ?r2] @ [?r2] @ []). \<forall>r'\<in>set ([?r1, ?r2] @ [?r2] @ []).
             swap_id r = swap_id r' \<longrightarrow> r = r'"
    by (simp add: in_pool_def swap_of_def)
  have d: "\<forall>m. get_prop (accumulate [''0xabc''] (merged [?r1, ?r2] [?r2] [])) ''0xabc'' = Some m
             \<longrightarrow> distinct (map snd (top_pairs m))"
    by (simp add: accumulate_apply merged_records eval_defs in_pool_def symbol_or_def)
  from order_independence [OF s c, of "\<lambda>x. ''$''" "[''0xabc'']" "''0xabc''"] d
  show ?thesis by blast
qed

section \<open>Every identifier is counted once\<close>

lemma first_seen_unseen:
  "k \<notin> swap_id ` set rows \<Longrightarrow> first_seen (k # seen) rows = first_seen seen rows"
proof (induction rows arbitrary: seen)
  case Nil
  then show ?case by simp
next
  case (Cons s rows)
  have c: "first_seen (swap_id s # k # seen) rows = first_seen (k # swap_id s # seen) rows"
    by (rule first_seen_cong) auto
  from Cons.prems Cons.IH [of seen] Cons.IH [of "swap_id s # seen"] c show ?case by auto
qed

lemma first_seen_without:
  "filter (\<lambda>s. swap_id s \<noteq> X) (first_seen seen rows) = first_seen seen (without X rows)"
proof (induction rows arbitrary: seen)
  case Nil
  then show ?case by (simp add: without_def)
next
  case (Cons s rows)
  have u: "first_seen (X # seen) (without X rows) = first_seen seen (without X rows)"
    by (rule first_seen_unseen) (auto simp: without_def)
  show ?case
  proof (cases "swap_id s = X")
    case True
    with Cons.IH [of seen] Cons.IH [of "X # seen"] u show ?thesis
      by (simp add: without_def)
  next
    case False
    with Cons.IH [of seen] Cons.IH [of "swap_id s # seen"] show ?thesis
      by (simp add: without_def)
  qed
qed

lemma first_seen_only:
  "X \<notin> set seen \<Longrightarrow> find (\<lambda>s. swap_id s = X) rows = Some r \<Longrightarrow>
     filter (\<lambda>s. swap_id s = X) (first_seen seen rows) = [r]"
proof (induction rows arbitrary: seen)
  case Nil
  then show ?case by simp
next
  case (Cons s rows)
  show ?case
  proof (cases "swap_id s = X")
    case True
    have "filter (\<lambda>s. swap_id s = X) (first_seen (X # seen) rows) = []"
      using first_seen_fresh [of "X # seen" rows] by (auto simp: filter_empty_conv)
    with True Cons.prems show ?thesis by simp
  next
    case False
    with Cons.prems Cons.IH [of seen] Cons.IH [of "swap_id s # seen"] show ?thesis by simp
  qed
qed

lemma length_filter_split:
  "length (filter P xs) =
     length (filter P (filter Q xs)) + length (filter P (filter (\<lambda>x. \<not> Q x) xs))"
  by (induction xs) auto

lemma sum_filter_split:
  fixes f :: "'a \<Rightarrow> rat"
  shows "sum_list (map f (filter P xs)) =
     sum_list (map f (filter P (filter Q xs))) + sum_list (map f (filter P (filter (\<lambda>x. \<not> Q x) xs)))"
  by (induction xs) auto

lemma pair_total_volumes:
  "pair_total (pair_volumes xs) p = sum_list (map safe_usd (filter (\<lambda>s. pair_key s = p) xs))"
  by (simp add: pair_total_def map_of_pair_volumes filter_key_empty)

lemma expected_metrics_split:
  assumes k: "filter (\<lambda>s. swap_id s \<noteq> X) D = D0" and o: "filter (\<lambda>s. \<not> swap_id s \<noteq> X) D = [r]"
  shows "swaps_involved (expected_metrics a D) =
           swaps_involved (expected_metrics a D0) + (if involves a r then 1 else 0)"
    and "volume_involved_usd (expected_metrics a D) =
           volume_involved_usd (expected_metrics a D0) + (if involves a r then safe_usd r else 0)"
    and "swaps_execution (expected_metrics a D) =
           swaps_execution (expected_metrics a D0) + (if executed_by a r then 1 else 0)"
    and "volume_execution_usd (expected_metrics a D) =
           volume_execution_usd (expected_metrics a D0) + (if executed_by a r then safe_usd r else 0)"
    and "pair_total (top_pairs (expected_metrics a D)) p =
           pair_total (top_pairs (expected_metrics a D0)) p
             + (if executed_by a r \<and> pair_key r = p then safe_usd r else 0)"
proof -
  have l: "length (filter P D) = length (filter P D0) + length (filter P [r])" for P
    using length_filter_split [of P D "\<lambda>s. swap_id s \<noteq> X"] unfolding k o .
  have t: "sum_list (map safe_usd (filter P D)) =
      sum_list (map safe_usd (filter P D0)) + sum_list (map safe_usd (filter P [r]))" for P
    using sum_filter_split [of safe_usd P D "\<lambda>s. swap_id s \<noteq> X"] unfolding k o .
  show "swaps_involved (expected_metrics a D) =
           swaps_involved (expected_metrics a D0) + (if involves a r then 1 else 0)"
    by (simp add: expected_metrics_def l [of "involves a"])
  show "volume_involved_usd (expected_metrics a D) =
           volume_involved_usd (expected_metrics a D0) + (if involves a r then safe_usd r else 0)"
    by (simp add: expected_metrics_def t [of "involves a"])
  show "swaps_execution (expected_metrics a D) =
           swaps_execution (expected_metrics a D0) + (if executed_by a r then 1 else 0)"
    by (simp add: expected_metrics_def l [of "executed_by a"])
  show "volume_execution_usd (expected_metrics a D) =
           volume_execution_usd (expected_metrics a D0) + (if executed_by a r then safe_usd r else 0)"
    by (simp add: expected_metrics_def t [of "executed_by a"])
  have c: "filter (\<lambda>s. pair_key s = p) (filter (executed_by a) xs) =
      filter (\<lambda>s. executed_by a s \<and> pair_key s = p) xs" for xs
    by (simp add: conj_commute)
  show "pair_total (top_pairs (expected_metrics a D)) p =
           pair_total (top_pairs (expected_metrics a D0)) p
             + (if executed_by a r \<and> pair_key r = p then safe_usd r else 0)"
    unfolding expected_metrics_def by (simp add: pair_total_volumes c t [of "\<lambda>s. executed_by a s \<and> pair_key s = p"] del: filter_filter)
qed

text \<open>
  C1. Let records with identifier \<open>X\<close> be in any of the three raw lists, and let \<open>r\<close> be
  the first of them in the order by-origin, by-sender, by-recipient. Then the merged list
  holds exactly one record with that identifier, the record \<open>r\<close>. For every requested
  address, the involved swap count, the involved volume, the execution count, the
  execution volume and the accumulated volume of every pair are those obtained without
  any record \<open>X\<close> in the lists, plus the contribution of \<open>r\<close>, once: the same whether
  one, two or three lists hold the record, and however often. The returned entry of the
  address carries these counts and volumes.
\<close>

theorem dedup_idempotence:
  assumes "a \<in> set addrs" and "find (\<lambda>s. swap_id s = X) (so @ ss @ sr) = Some r"
  shows "map fst (filter (\<lambda>ts. swap_id (fst ts) = X) (merged so ss sr)) = [r]
     \<and> (\<exists>m m0. get_prop (accumulate addrs (merged so ss sr)) a = Some m
          \<and> get_prop (accumulate addrs (merged (without X so) (without X ss) (without X sr))) a = Some m0
          \<and> swaps_involved m = swaps_involved m0 + (if involves a r then 1 else 0)
          \<and> volume_involved_usd m = volume_involved_usd m0 + (if involves a r then safe_usd r else 0)
          \<and> swaps_execution m = swaps_execution m0 + (if executed_by a r then 1 else 0)
          \<and> volume_execution_usd m =
               volume_execution_usd m0 + (if executed_by a r then safe_usd r else 0)
          \<and> (\<forall>p. pair_total (top_pairs m) p =
                 pair_total (top_pairs m0) p
                   + (if executed_by a r \<and> pair_key r = p then safe_usd r else 0))
          \<and> (a \<noteq> ''__proto__'' \<longrightarrow>
                (\<exists>f. per (aggregate h addrs so ss sr) a = Some f
                   \<and> swaps_involved f = swaps_involved m
                   \<and> volume_involved_usd f = volume_involved_usd m
                   \<and> swaps_execution f = swaps_execution m
                   \<and> volume_execution_usd f = volume_execution_usd m
                   \<and> top_pairs f = top_pairs_of h (top_pairs m))))"
proof -
  let ?L = "so @ ss @ sr"
  let ?D = "first_seen [] ?L"
  let ?E = "first_seen [] (without X so @ without X ss @ without X sr)"
  have w: "without X ?L = without X so @ without X ss @ without X sr"
    by (simp add: without_def)
  have "filter (\<lambda>s. swap_id s \<noteq> X) ?D = first_seen [] (without X ?L)"
    by (rule first_seen_without)
  then have k: "filter (\<lambda>s. swap_id s \<noteq> X) ?D = ?E"
    unfolding w .
  have o: "filter (\<lambda>s. swap_id s = X) ?D = [r]"
    using assms(2) by (intro first_seen_only) simp_all
  then have o': "filter (\<lambda>s. \<not> swap_id s \<noteq> X) ?D = [r]" by simp
  have "map fst (filter (\<lambda>ts. swap_id (fst ts) = X) (merged so ss sr)) =
        filter (\<lambda>s. swap_id s = X) (map fst (merged so ss sr))"
    by (simp add: filter_map comp_def)
  then have 1: "map fst (filter (\<lambda>ts. swap_id (fst ts) = X) (merged so ss sr)) = [r]"
    by (simp only: merged_records o)
  note e = expected_metrics_split [OF k o', of a]
  have m: "get_prop (accumulate addrs (merged so ss sr)) a = Some (expected_metrics a ?D)"
    using assms(1) by (simp add: accumulate_apply merged_records)
  have m0: "get_prop (accumulate addrs (merged (without X so) (without X ss) (without X sr))) a =
      Some (expected_metrics a ?E)"
    using assms(1) by (simp add: accumulate_apply merged_records)
  have f: "a \<noteq> ''__proto__'' \<longrightarrow>
      (\<exists>f. per (aggregate h addrs so ss sr) a = Some f
         \<and> swaps_involved f = swaps_involved (expected_metrics a ?D)
         \<and> volume_involved_usd f = volume_involved_usd (expected_metrics a ?D)
         \<and> swaps_execution f = swaps_execution (expected_metrics a ?D)
         \<and> volume_execution_usd f = volume_execution_usd (expected_metrics a ?D)
         \<and> top_pairs f = top_pairs_of h (top_pairs (expected_metrics a ?D)))"
    using assms(1) by (simp add: aggregate_apply final_metrics_def)
  from 1 m m0 e f show ?thesis by blast
qed

theorem dedup_idempotence_witness:
  "map fst (filter (\<lambda>ts. swap_id (fst ts) = ''id3'')
      (merged [swap_of ''id1'' (Numeric 6000) ''0xabc'' ''0xs'' ''0xr'',
               swap_of ''id3'' (Numeric 1) ''0xabc'' ''0xabc'' ''0xr'']
              [swap_of ''id2'' (Numeric 4000) ''0xother'' ''0xabc'' ''0xdef'',
               swap_of ''id3'' (Numeric 1) ''0xabc'' ''0xabc'' ''0xr'']
              [swap_of ''id2'' (Numeric 4000) ''0xother'' ''0xabc'' ''0xdef'',
               swap_of ''id3'' (Numeric 1) ''0xabc'' ''0xabc'' ''0xr''])) =
     [swap_of ''id3'' (Numeric 1) ''0xabc'' ''0xabc'' ''0xr'']
   \<and> (\<exists>m m0. get_prop (accumulate [''0xabc'']
          (merged [swap_of ''id1'' (Numeric 6000) ''0xabc'' ''0xs'' ''0xr'',
                   swap_of ''id3'' (Numeric 1) ''0xabc'' ''0xabc'' ''0xr'']
                  [swap_of ''id2'' (Numeric 4000) ''0xother'' ''0xabc'' ''0xdef'',
                   swap_of ''id3'' (Numeric 1) ''0xabc'' ''0xabc'' ''0xr'']
                  [swap_of ''id2'' (Numeric 4000) ''0xother'' ''0xabc'' ''0xdef'',
                   swap_of ''id3'' (Numeric 1) ''0xabc'' ''0xabc'' ''0xr''])) ''0xabc'' = Some m
        \<and> get_prop (accumulate [''0xabc'']
          (merged [swap_of ''id1'' (Numeric 6000) ''0xabc'' ''0xs'' ''0xr'']
                  [swap_of ''id2'' (Numeric 4000) ''0xother'' ''0xabc'' ''0xdef'']
                  [swap_of ''id2'' (Numeric 4000) ''0xother'' ''0xabc'' ''0xdef''])) ''0xabc'' = Some m0
        \<and> swaps_involved m = swaps_involved m0 + 1
        \<and> volume_involved_usd m = volume_involved_usd m0 + 1
        \<and> swaps_execution m = swaps_execution m0 + 1
        \<and> volume_execution_usd m = volume_execution_usd m0 + 1)
   \<and> per (aggregate (\<lambda>x. ''$'') [''0xabc'']
              [swap_of ''id1'' (Numeric 6000) ''0xabc'' ''0xs'' ''0xr'',
               swap_of ''id3'' (Numeric 1) ''0xabc'' ''0xabc'' ''0xr'']
              [swap_of ''id2'' (Numeric 4000) ''0xother'' ''0xabc'' ''0xdef'',
               swap_of ''id3'' (Numeric 1) ''0xabc'' ''0xabc'' ''0xr'']
              [swap_of ''id2'' (Numeric 4000) ''0xother'' ''0xabc'' ''0xdef'',
               swap_of ''id3'' (Numeric 1) ''0xabc'' ''0xabc'' ''0xr'']) ''0xabc'' =
       Some \<lparr>address = ''0xabc'', swaps_execution = 2, volume_execution_usd = 6001,
             swaps_involved = 3, volume_involved_usd = 10001, top_pairs = [''T0/T1 ($)'']\<rparr>"
proof -
  let ?r1 = "swap_of ''id1'' (Numeric 6000) ''0xabc'' ''0xs'' ''0xr''"
  let ?r2 = "swap_of ''id2'' (Numeric 4000) ''0xother'' ''0xabc'' ''0xdef''"
  let ?r3 = "swap_of ''id3'' (Numeric 1) ''0xabc'' ''0xabc'' ''0xr''"
  have a: "''0xabc'' \<in> set [''0xabc'']" by simp
  have f: "find (\<lambda>s. swap_id s = ''id3'') ([?r1, ?r3] @ [?r2, ?r3] @ [?r2, ?r3]) = Some ?r3"
    by (simp add: swap_of_def)
  have i: "involves ''0xabc'' ?r3" "executed_by ''0xabc'' ?r3" "safe_usd ?r3 = 1"
    by (simp_all add: involves_def set_involved executed_by_def swap_of_def lower_addr_def
        toLowerCase_def lower_char_def upper_letters_def lower_letters_def safe_usd_def)
  have w: "without ''id3'' [?r1, ?r3] = [?r1]" "without ''id3'' [?r2, ?r3] = [?r2]"
    by (simp_all add: without_def swap_of_def)
  note t = dedup_idempotence [OF a f, of "\<lambda>x. ''$''", unfolded w]
  have 1: "map fst (filter (\<lambda>ts. swap_id (fst ts) = ''id3'') (merged [?r1, ?r3] [?r2, ?r3] [?r2, ?r3]))
      = [?r3]"
    using t by blast
  have 2: "\<exists>m m0. get_prop (accumulate [''0xabc''] (merged [?r1, ?r3] [?r2, ?r3] [?r2, ?r3])) ''0xabc'' = Some m
        \<and> get_prop (accumulate [''0xabc''] (merged [?r1] [?r2] [?r2])) ''0xabc'' = Some m0
        \<and> swaps_involved m = swaps_involved m0 + 1
        \<and> volume_involved_usd m = volume_involved_usd m0 + 1
        \<and> swaps_execution m = swaps_execution m0 + 1
        \<and> volume_execution_usd m = volume_execution_usd m0 + 1"
    using t i by auto
  have 3: "per (aggregate (\<lambda>x. ''$'') [''0xabc''] [?r1, ?r3] [?r2, ?r3] [?r2, ?r3]) ''0xabc'' =
       Some \<lparr>address = ''0xabc'', swaps_execution = 2, volume_execution_usd = 6001,
             swaps_involved = 3, volume_involved_usd = 10001, top_pairs = [''T0/T1 ($)'']\<rparr>"
    by (simp add: eval_defs)
  from 1 2 3 show ?thesis by blast
qed

section \<open>Claims about fetching\<close>

lemma first_pos: "0 < first"
  by (simp add: first_def)

lemma fetchAll_loop_fail:
  "request (varsBase, first, k) w = (Inl e, w') \<Longrightarrow>
     fetchAll_loop request varsBase k out w = Some (Inl e, w')"
  by (subst fetchAll_loop.simps) simp

lemma fetchAll_loop_short:
  "request (varsBase, first, k) w = (Inr res, w') \<Longrightarrow> length (rows_of res) < first \<Longrightarrow>
     fetchAll_loop request varsBase k out w = Some (Inr (out @ rows_of res), w')"
  by (subst fetchAll_loop.simps) simp

lemma fetchAll_loop_full:
  "request (varsBase, first, k) w = (Inr res, w') \<Longrightarrow> \<not> length (rows_of res) < first \<Longrightarrow>
     fetchAll_loop request varsBase k out w =
       fetchAll_loop request varsBase (k + first) (out @ rows_of res) w'"
  by (subst fetchAll_loop.simps) simp

lemma paged_source_request:
  "paged_source recs q (varsBase, n, k) reqs =
     (Inr (Some (Response (Some (take n (drop k recs))))), reqs @ [(varsBase, n, k)])"
  by (simp add: paged_source_def)

lemma rows_of_Response: "rows_of (Some (Response (Some rows))) = rows"
  by (simp add: rows_of_def)

lemma paged_short:
  assumes "length recs - k < first"
  shows "fetchAll_loop (paged_source recs q) varsBase k out reqs =
     Some (Inr (out @ drop k recs), reqs @ [(varsBase, first, k)])"
proof -
  from assms have r: "take first (drop k recs) = drop k recs" by simp
  show ?thesis
    by (subst fetchAll_loop.simps) (simp add: paged_source_request rows_of_Response r assms)
qed

lemma paged_full:
  assumes "\<not> length recs - k < first"
  shows "fetchAll_loop (paged_source recs q) varsBase k out reqs =
     fetchAll_loop (paged_source recs q) varsBase (k + first)
       (out @ take first (drop k recs)) (reqs @ [(varsBase, first, k)])"
proof -
  from assms have "\<not> length (take first (drop k recs)) < first" by simp
  then show ?thesis
    by (subst fetchAll_loop.simps) (simp add: paged_source_request rows_of_Response Let_def)
qed

lemma upt_requests:
  "map (\<lambda>j. (varsBase, first, k + first * j)) [0..<Suc (Suc n)] =
     (varsBase, first, k) # map (\<lambda>j. (varsBase, first, k + first + first * j)) [0..<Suc n]"
  by (simp only: map_upt_Suc [of _ "Suc n"]) (simp add: add.assoc)

lemma take_drop_next: "take n (drop k xs) @ drop (k + n) xs = drop k xs"
  using append_take_drop_id [of n "drop k xs"] by (simp add: add.commute)

lemma fetchAll_loop_paged:
  "fetchAll_loop (paged_source recs q) varsBase k out reqs =
     Some (Inr (out @ drop k recs),
           reqs @ map (\<lambda>j. (varsBase, first, k + first * j)) [0..<Suc ((length recs - k) div first)])"
proof (induction "length recs - k" arbitrary: k out reqs rule: less_induct)
  case less
  show ?case
  proof (cases "length recs - k < first")
    case True
    then have "(length recs - k) div first = 0" by simp
    with paged_short [OF True] show ?thesis by simp
  next
    case False
    then have ge: "first \<le> length recs - k" by simp
    have dec: "length recs - (k + first) < length recs - k"
      using ge first_pos by simp
    have d: "(length recs - k) div first = Suc ((length recs - (k + first)) div first)"
      using ge first_pos by (simp add: le_div_geq)
    show ?thesis
      by (simp only: paged_full [OF False] less [OF dec] d upt_requests append_assoc
          take_drop_next append_Cons append_Nil)
  qed
qed

lemma ceil_requests:
  fixes N P :: nat
  assumes "0 < P"
  shows "(N + (P - 1)) div P + (if N mod P = 0 then 1 else 0) = Suc (N div P)"
proof (cases "N mod P = 0")
  case True
  then have "P dvd N" by (simp add: dvd_eq_mod_eq_0)
  then obtain q where q: "N = P * q" by (auto elim: dvdE)
  from assms have "(P * q + (P - 1)) div P = q + (P - 1) div P"
    using div_mult_self4 [of P q "P - 1"] by simp
  also from assms have "(P - 1) div P = 0" by simp
  finally show ?thesis using True assms by (simp only: q) simp
next
  case False
  define r where "r = N mod P - 1"
  define q where "q = N div P"
  from False have "N mod P = Suc r" by (simp add: r_def)
  moreover have "N mod P < P" using assms by simp
  ultimately have rP: "r < P" by simp
  have "N = P * q + N mod P" by (simp add: q_def)
  with \<open>N mod P = Suc r\<close> have "N + (P - 1) = P * Suc q + r" using assms by simp
  moreover from assms have "(P * Suc q + r) div P = Suc q + r div P"
    using div_mult_self4 [of P "Suc q" r] by simp
  ultimately have "(N + (P - 1)) div P = Suc q" using rP by simp
  with False show ?thesis by (simp add: q_def)
qed

text \<open>
  C2. Against a source holding \<open>N\<close> matching records, \<^const>\<open>fetchAll\<close> returns, and
  returns the \<open>N\<close> records in the order of the source, each as often as the source holds
  it. The requests it issues are those at the offsets 0, 1000, 2000 and so on, each for
  1000 records: the ceiling of \<open>N / 1000\<close> of them, and one more when \<open>N\<close> is a multiple
  of 1000 (one request for \<open>N = 0\<close>). So it stops at the first page shorter than 1000.
\<close>

theorem pagination_completeness:
  "fetchAll (paged_source recs) q varsBase [] =
     Some (Inr recs,
           map (\<lambda>j. (varsBase, 1000, 1000 * j))
             [0..<(length recs + 999) div 1000 + (if length recs mod 1000 = 0 then 1 else 0)])"
proof -
  have n: "(length recs + 999) div 1000 + (if length recs mod 1000 = 0 then 1 else 0)
      = Suc (length recs div first)"
    using ceil_requests [of 1000 "length recs"] by (simp add: first_def)
  have "fetchAll (paged_source recs) q varsBase [] =
     Some (Inr recs, map (\<lambda>j. (varsBase, first, first * j)) [0..<Suc (length recs div first)])"
    using fetchAll_loop_paged [of recs q varsBase 0 "[]" "[]"] by (simp add: fetchAll_def)
  then show ?thesis
    by (simp only: n) (simp only: first_def)
qed

theorem pagination_completeness_witness:
  "fetchAll (paged_source (replicate 1000 (swap_of ''id1'' (Numeric 6000) ''0xabc'' ''0xs'' ''0xr'')))
      SWAPS_QUERY ([''0xabc''], 0 :: int, 86399 :: int) [] =
     Some (Inr (replicate 1000 (swap_of ''id1'' (Numeric 6000) ''0xabc'' ''0xs'' ''0xr'')),
           [(([''0xabc''], 0, 86399), 1000, 0), (([''0xabc''], 0, 86399), 1000, 1000)])"
  using pagination_completeness
    [of "replicate 1000 (swap_of ''id1'' (Numeric 6000) ''0xabc'' ''0xs'' ''0xr'')"
      SWAPS_QUERY "([''0xabc''], 0 :: int, 86399 :: int)"]
  by (simp add: upt_rec)

lemma loop_endpoint_fails:
  "endpoint_attempt (net url) varsBase w = Some (Inl e, w') \<Longrightarrow>
     fetchWithFallbacks_loop net (url # urls) varsBase lastErr w =
       fetchWithFallbacks_loop net urls varsBase (Some e) w'"
  by (auto simp: endpoint_attempt_def split: option.splits sum.splits prod.splits)

lemma loop_endpoint_succeeds:
  "endpoint_attempt (net url) varsBase w = Some (Inr (so, ss, sr), w') \<Longrightarrow>
     fetchWithFallbacks_loop net (url # urls) varsBase lastErr w = Some (Inr (so, ss, sr, url), w')"
  by (auto simp: endpoint_attempt_def split: option.splits sum.splits prod.splits)

lemma loop_after_failures:
  "failing_endpoints net failed varsBase lastErr w = Some (lastErr', w') \<Longrightarrow>
     fetchWithFallbacks_loop net (failed @ rest) varsBase lastErr w =
       fetchWithFallbacks_loop net rest varsBase lastErr' w'"
proof (induction failed arbitrary: lastErr w)
  case Nil
  then show ?case by simp
next
  case (Cons url failed)
  from Cons.prems obtain e w1 where
    a: "endpoint_attempt (net url) varsBase w = Some (Inl e, w1)" and
    r: "failing_endpoints net failed varsBase (Some e) w1 = Some (lastErr', w')"
    by (auto split: option.splits sum.splits prod.splits)
  from loop_endpoint_fails [of net url varsBase w e w1 "failed @ rest" lastErr, OF a]
    Cons.IH [OF r] show ?case by simp
qed

text \<open>
  C3. When the endpoints of a list \<open>failed\<close> fail one after another and the attempt at
  the next endpoint \<open>url\<close> completes its three queries, \<^const>\<open>fetchWithFallbacks\<close> returns
  the three lists of that attempt with \<open>url\<close>, in the state that attempt left: nothing of
  the failed attempts is in the result and no endpoint after \<open>url\<close> is contacted. When
  the attempt at \<open>url\<close>, the last candidate, fails as well, the call fails with the error
  \<^verbatim>\<open>All subgraph endpoints failed.\<close> that carries the error of that last attempt.
\<close>

theorem fallback_correctness:
  "(failing_endpoints net failed (addresses, start, end_ts) None w = Some (lastErr, w1)
      \<and> endpoint_attempt (net url) (addresses, start, end_ts) w1 = Some (Inr (so, ss, sr), w2)
    \<longrightarrow> fetchWithFallbacks net (failed @ url # rest) addresses start end_ts w =
          Some (Inr (so, ss, sr, url), w2))
   \<and> (failing_endpoints net failed (addresses, start, end_ts) None w = Some (lastErr, w1)
      \<and> endpoint_attempt (net url) (addresses, start, end_ts) w1 = Some (Inl e, w2)
    \<longrightarrow> fetchWithFallbacks net (failed @ [url]) addresses start end_ts w =
          Some (Inl (JsError ''Error''
            (''All subgraph endpoints failed. Last error: '' @ last_error_text (Some e))), w2))"
proof (intro conjI impI; elim conjE)
  assume f: "failing_endpoints net failed (addresses, start, end_ts) None w = Some (lastErr, w1)"
    and a: "endpoint_attempt (net url) (addresses, start, end_ts) w1 = Some (Inr (so, ss, sr), w2)"
  from loop_after_failures [OF f, of "url # rest"]
    loop_endpoint_succeeds [of net url "(addresses, start, end_ts)" w1 so ss sr w2 rest lastErr, OF a]
  show "fetchWithFallbacks net (failed @ url # rest) addresses start end_ts w =
          Some (Inr (so, ss, sr, url), w2)"
    by (simp add: fetchWithFallbacks_def)
next
  assume f: "failing_endpoints net failed (addresses, start, end_ts) None w = Some (lastErr, w1)"
    and a: "endpoint_attempt (net url) (addresses, start, end_ts) w1 = Some (Inl e, w2)"
  from loop_after_failures [OF f, of "[url]"]
    loop_endpoint_fails [of net url "(addresses, start, end_ts)" w1 e w2 "[]" lastErr, OF a]
  show "fetchWithFallbacks net (failed @ [url]) addresses start end_ts w =
          Some (Inl (JsError ''Error''
            (''All subgraph endpoints failed. Last error: '' @ last_error_text (Some e))), w2)"
    by (simp add: fetchWithFallbacks_def all_failed_def)
qed

lemma fetchAll_example:
  "fetchAll (example_net ''E1'') q varsBase reqs =
     Some (Inl (JsError ''Error'' ''down E1''), reqs @ [(''E1'', q)])"
  "fetchAll (example_net ''E2'') SWAPS_QUERY varsBase reqs =
     Some (Inr [swap_of ''E2-id'' (Numeric 1) ''0xabc'' ''0xabc'' ''0xabc''],
           reqs @ [(''E2'', SWAPS_QUERY)])"
  "fetchAll (example_net ''E2'') SWAPS_QUERY_SENDER varsBase reqs =
     Some (Inl (JsError ''Error'' ''down E2''), reqs @ [(''E2'', SWAPS_QUERY_SENDER)])"
  "fetchAll (example_net ''E3'') q varsBase reqs =
     Some (Inr [swap_of ''E3-id'' (Numeric 1) ''0xabc'' ''0xabc'' ''0xabc''],
           reqs @ [(''E3'', q)])"
  unfolding fetchAll_def
  by (subst fetchAll_loop.simps, simp add: example_net_def rows_of_def first_def)+

theorem fallback_correctness_witness:
  "fetchWithFallbacks example_net ([''E1'', ''E2''] @ ''E3'' # [''E4'']) [''0xabc''] 0 86399 [] =
     Some (Inr ([swap_of ''E3-id'' (Numeric 1) ''0xabc'' ''0xabc'' ''0xabc''],
                [swap_of ''E3-id'' (Numeric 1) ''0xabc'' ''0xabc'' ''0xabc''],
                [swap_of ''E3-id'' (Numeric 1) ''0xabc'' ''0xabc'' ''0xabc''], ''E3''),
           [(''E1'', SWAPS_QUERY), (''E2'', SWAPS_QUERY), (''E2'', SWAPS_QUERY_SENDER),
            (''E3'', SWAPS_QUERY), (''E3'', SWAPS_QUERY_SENDER), (''E3'', SWAPS_QUERY_RECIPIENT)])
   \<and> fetchWithFallbacks example_net ([''E1''] @ [''E2'']) [''0xabc''] 0 86399 [] =
     Some (Inl (JsError ''Error'' ''All subgraph endpoints failed. Last error: down E2''),
           [(''E1'', SWAPS_QUERY), (''E2'', SWAPS_QUERY), (''E2'', SWAPS_QUERY_SENDER)])"
proof -
  let ?vb = "([''0xabc''], 0 :: int, 86399 :: int)"
  let ?down = "\<lambda>u. JsError ''Error'' (''down '' @ u)"
  have f1: "failing_endpoints example_net [''E1'', ''E2''] ?vb None [] =
      Some (Some (?down ''E2''), [(''E1'', SWAPS_QUERY), (''E2'', SWAPS_QUERY), (''E2'', SWAPS_QUERY_SENDER)])"
    by (simp add: endpoint_attempt_def fetchAll_example)
  have a3: "endpoint_attempt (example_net ''E3'') ?vb
        [(''E1'', SWAPS_QUERY), (''E2'', SWAPS_QUERY), (''E2'', SWAPS_QUERY_SENDER)] =
      Some (Inr ([swap_of ''E3-id'' (Numeric 1) ''0xabc'' ''0xabc'' ''0xabc''],
                [swap_of ''E3-id'' (Numeric 1) ''0xabc'' ''0xabc'' ''0xabc''],
                [swap_of ''E3-id'' (Numeric 1) ''0xabc'' ''0xabc'' ''0xabc'']),
           [(''E1'', SWAPS_QUERY), (''E2'', SWAPS_QUERY), (''E2'', SWAPS_QUERY_SENDER),
            (''E3'', SWAPS_QUERY), (''E3'', SWAPS_QUERY_SENDER), (''E3'', SWAPS_QUERY_RECIPIENT)])"
    by (simp add: endpoint_attempt_def fetchAll_example)
  have f0: "failing_endpoints example_net [''E1''] ?vb None [] =
      Some (Some (?down ''E1''), [(''E1'', SWAPS_QUERY)])"
    by (simp add: endpoint_attempt_def fetchAll_example)
  have a2: "endpoint_attempt (example_net ''E2'') ?vb [(''E1'', SWAPS_QUERY)] =
      Some (Inl (?down ''E2''), [(''E1'', SWAPS_QUERY), (''E2'', SWAPS_QUERY), (''E2'', SWAPS_QUERY_SENDER)])"
    by (simp add: endpoint_attempt_def fetchAll_example)
  note t1 = fallback_correctness [where net = example_net and failed = "[''E1'', ''E2'']"
      and url = "''E3''" and rest = "[''E4'']" and addresses = "[''0xabc'']" and start = 0
      and end_ts = 86399 and w = "[]", THEN conjunct1, rule_format, OF conjI, OF f1 a3]
  note t2 = fallback_correctness [where net = example_net and failed = "[''E1'']"
      and url = "''E2''" and addresses = "[''0xabc'']" and start = 0
      and end_ts = 86399 and w = "[]", THEN conjunct2, rule_format, OF conjI, OF f0 a2]
  from t1 t2 show ?thesis by (simp add: last_error_text_def)
qed

end
